theory Spec2Isabelle
  imports Main
begin

section \<open>The buffer manager of src/buffer.cpp\<close>

text \<open>
  The buffer pool of BadgerDB: \<open>BufMgr\<close> keeps \<open>numBufs\<close> frames, a descriptor per frame,
  a hash table from \<open>(file, pageNo)\<close> to the frame that holds the page, and a clock hand.
  Every method of \<open>src/buffer.cpp\<close> becomes a function from the state of the manager to an
  outcome and the state it leaves behind. A C++ exception is the outcome \<open>Inl e\<close>; the
  state next to it is the state at the moment of the \<open>throw\<close>, since nothing in the
  source undoes the assignments made before it.

  Integers: \<open>numBufs\<close>, \<open>FrameId\<close> and the loop counters are \<open>std::uint32_t\<close> in the
  source. They are natural numbers here; the predicate \<open>BufMgr_wf\<close> below bounds
  \<open>numBufs\<close> by \<open>2^32 - 2\<close>, and under that bound no counter of the source wraps
  (the largest value a counter takes is \<open>numBufs + 1\<close>). The two places where a
  wrap-around is possible without the bound, \<open>bufs - 1\<close> in the constructor and
  \<open>clockHand++\<close>, are written with \<open>mod 2^32\<close>.
\<close>

subsection \<open>Data\<close>

type_synonym FrameId = nat
type_synonym PageId = nat

text \<open>A \<open>File*\<close>: the address of the \<open>File\<close> object; \<open>NULL\<close> is 0.\<close>

type_synonym file_ptr = nat

definition NULL :: file_ptr where
  "NULL = 0"

text \<open>
  Modelled from the spec: the class \<open>Page\<close> is not part of the sources at hand. Section 6.2
  calls it an opaque byte container carrying its own \<open>page_number()\<close>.
\<close>

record Page =
  page_number :: PageId
  page_data :: "nat list"

definition INVALID_NUMBER :: PageId where
  "INVALID_NUMBER = 0"

text \<open>
  The exceptions thrown in \<open>buffer.cpp\<close> with the arguments the source passes
  (\<open>file->filename()\<close> is represented by the file itself), the two exceptions of the hash
  table, and \<open>FileException\<close> for whatever a method of \<open>File\<close> throws.
\<close>

datatype exn =
    BufferExceededException
  | PageNotPinnedException file_ptr PageId FrameId
  | PagePinnedException file_ptr PageId FrameId
  | BadBufferException FrameId bool bool bool
  | HashNotFoundException
  | HashAlreadyPresentException
  | FileException nat

text \<open>
  Modelled from the spec: the class \<open>BufDesc\<close> (buffer.h) is not part of the sources at
  hand; its fields are the ones \<open>buffer.cpp\<close> reads and writes, \<open>pinCnt\<close> is the
  non-negative integer of section 3.1. The field \<open>file\<close> is \<open>file_p\<close> here.
\<close>

record BufDesc =
  file_p :: file_ptr
  pageNo :: PageId
  frameNo :: FrameId
  pinCnt :: nat
  dirty :: bool
  valid :: bool
  refbit :: bool

text \<open>
  Modelled from the spec: \<open>BufDesc::Clear\<close> "resets to empty state" (section 4.1), and
  section 9 asks that the \<open>file\<close> of a cleared descriptor be a sentinel.
  The frame number is the position of the descriptor and is kept.
\<close>

definition BufDesc_Clear :: "BufDesc \<Rightarrow> BufDesc" where
  "BufDesc_Clear d =
     d\<lparr>pinCnt := 0, file_p := NULL, pageNo := INVALID_NUMBER,
       dirty := False, refbit := False, valid := False\<rparr>"

text \<open>
  Modelled from the spec: \<open>BufDesc::Set\<close> "installs identity, \<open>pinCnt=1\<close>, other bits
  reset"; admission "sets \<open>valid\<close>, \<open>file\<close>, \<open>pageNo\<close>, \<open>pinCnt=1\<close>, \<open>dirty=false\<close>,
  \<open>refbit=false\<close>" (sections 4.1 and 3.3).
\<close>

definition BufDesc_Set :: "BufDesc \<Rightarrow> file_ptr \<Rightarrow> PageId \<Rightarrow> BufDesc" where
  "BufDesc_Set d filePtr pageNum =
     d\<lparr>file_p := filePtr, pageNo := pageNum, pinCnt := 1,
       dirty := False, valid := True, refbit := False\<rparr>"

text \<open>
  Modelled from the spec: the descriptor a \<open>new BufDesc[bufs]\<close> holds before the
  constructor of \<open>BufMgr\<close> touches it is the empty one.
\<close>

definition BufDesc_new :: BufDesc where
  "BufDesc_new =
     \<lparr>file_p = NULL, pageNo = INVALID_NUMBER, frameNo = 0, pinCnt = 0,
      dirty = False, valid = False, refbit = False\<rparr>"

subsection \<open>The hash table\<close>

text \<open>
  Modelled from the spec: the class \<open>BufHashTbl\<close> is not part of the sources at hand.
  Section 4.2: an associative mapping keyed on \<open>(file, pageNo)\<close>; \<open>insert\<close> fails with
  \<open>DuplicateKey\<close> when the key is present, \<open>lookup\<close> and \<open>remove\<close> fail with \<open>NotFound\<close>
  when it is absent. The table is the list of its entries, newest first.
\<close>

type_synonym hash_key = "file_ptr \<times> PageId"
type_synonym BufHashTbl = "(hash_key \<times> FrameId) list"

definition ht_lookup :: "BufHashTbl \<Rightarrow> hash_key \<Rightarrow> exn + FrameId" where
  "ht_lookup ht k =
     (case map_of ht k of None \<Rightarrow> Inl HashNotFoundException | Some f \<Rightarrow> Inr f)"

definition ht_insert :: "BufHashTbl \<Rightarrow> hash_key \<Rightarrow> FrameId \<Rightarrow> exn + BufHashTbl" where
  "ht_insert ht k f =
     (case map_of ht k of
        Some _ \<Rightarrow> Inl HashAlreadyPresentException
      | None \<Rightarrow> Inr ((k, f) # ht))"

definition ht_remove :: "BufHashTbl \<Rightarrow> hash_key \<Rightarrow> exn + BufHashTbl" where
  "ht_remove ht k =
     (case map_of ht k of
        None \<Rightarrow> Inl HashNotFoundException
      | Some _ \<Rightarrow> Inr (filter (\<lambda>e. fst e \<noteq> k) ht))"

subsection \<open>The files\<close>

text \<open>
  The class \<open>File\<close> is an external collaborator (section 6.1). Its four operations are
  parameters of the model: each takes the state \<open>'d\<close> of the storage and returns the
  storage it leaves and either a result or the code of the error it throws. The model
  assumes nothing about them.
\<close>

record 'd File_ops =
  File_readPage :: "file_ptr \<Rightarrow> PageId \<Rightarrow> 'd \<Rightarrow> (nat + Page) \<times> 'd"
  File_writePage :: "file_ptr \<Rightarrow> Page \<Rightarrow> 'd \<Rightarrow> (nat + unit) \<times> 'd"
  File_allocatePage :: "file_ptr \<Rightarrow> 'd \<Rightarrow> (nat + Page) \<times> 'd"
  File_deletePage :: "file_ptr \<Rightarrow> PageId \<Rightarrow> 'd \<Rightarrow> (nat + unit) \<times> 'd"

text \<open>A call to a \<open>File\<close>, as recorded in the log of the state below.\<close>

datatype file_call =
    ReadPage file_ptr PageId
  | WritePage file_ptr Page
  | AllocatePage file_ptr
  | DeletePage file_ptr PageId

subsection \<open>The state\<close>

text \<open>
  The members of \<open>BufMgr\<close>, the storage behind the files, and two fields that the code
  never reads: \<open>calls\<close> lists the calls made to files, oldest first, and \<open>advances\<close>
  counts the calls of \<open>advanceClock\<close>.
\<close>

record 'd BufMgr =
  numBufs :: nat
  bufDescTable :: "BufDesc list"
  bufPool :: "Page list"
  hashTable :: BufHashTbl
  clockHand :: FrameId
  disk :: 'd
  calls :: "file_call list"
  advances :: nat

text \<open>\<open>file->readPage(pageNo)\<close>, \<open>file->writePage(page)\<close>, \<open>file->allocatePage()\<close> and
  \<open>file->deletePage(pageNo)\<close>: the call is logged whether or not it throws.\<close>

definition call_readPage ::
  "'d File_ops \<Rightarrow> file_ptr \<Rightarrow> PageId \<Rightarrow> 'd BufMgr \<Rightarrow> (exn + Page) \<times> 'd BufMgr" where
  "call_readPage ops f p s =
     (case File_readPage ops f p (disk s) of (r, d') \<Rightarrow>
        (case r of Inl c \<Rightarrow> Inl (FileException c) | Inr pg \<Rightarrow> Inr pg,
         s\<lparr>disk := d', calls := calls s @ [ReadPage f p]\<rparr>))"

definition call_writePage ::
  "'d File_ops \<Rightarrow> file_ptr \<Rightarrow> Page \<Rightarrow> 'd BufMgr \<Rightarrow> (exn + unit) \<times> 'd BufMgr" where
  "call_writePage ops f pg s =
     (case File_writePage ops f pg (disk s) of (r, d') \<Rightarrow>
        (case r of Inl c \<Rightarrow> Inl (FileException c) | Inr u \<Rightarrow> Inr u,
         s\<lparr>disk := d', calls := calls s @ [WritePage f pg]\<rparr>))"

definition call_allocatePage ::
  "'d File_ops \<Rightarrow> file_ptr \<Rightarrow> 'd BufMgr \<Rightarrow> (exn + Page) \<times> 'd BufMgr" where
  "call_allocatePage ops f s =
     (case File_allocatePage ops f (disk s) of (r, d') \<Rightarrow>
        (case r of Inl c \<Rightarrow> Inl (FileException c) | Inr pg \<Rightarrow> Inr pg,
         s\<lparr>disk := d', calls := calls s @ [AllocatePage f]\<rparr>))"

definition call_deletePage ::
  "'d File_ops \<Rightarrow> file_ptr \<Rightarrow> PageId \<Rightarrow> 'd BufMgr \<Rightarrow> (exn + unit) \<times> 'd BufMgr" where
  "call_deletePage ops f p s =
     (case File_deletePage ops f p (disk s) of (r, d') \<Rightarrow>
        (case r of Inl c \<Rightarrow> Inl (FileException c) | Inr u \<Rightarrow> Inr u,
         s\<lparr>disk := d', calls := calls s @ [DeletePage f p]\<rparr>))"

subsection \<open>Constructor\<close>

text \<open>
  \<open>BufMgr::BufMgr(bufs)\<close>, lines 30-43: descriptor \<open>i\<close> gets \<open>frameNo = i\<close> and
  \<open>valid = false\<close>, the hash table is empty, \<open>clockHand = bufs - 1\<close> in 32-bit unsigned
  arithmetic. The pages of the pool are default-constructed. The number of buckets of
  the hash table (\<open>htsize\<close>) plays no part in the model of the table. The destructor and
  \<open>printSelf\<close> are not modelled.
\<close>

definition Page_new :: Page where
  "Page_new = \<lparr>page_number = INVALID_NUMBER, page_data = []\<rparr>"

definition BufMgr_new :: "nat \<Rightarrow> 'd \<Rightarrow> 'd BufMgr" where
  "BufMgr_new bufs d =
     \<lparr>numBufs = bufs,
      bufDescTable = map (\<lambda>i. BufDesc_new\<lparr>frameNo := i, valid := False\<rparr>) [0..<bufs],
      bufPool = replicate bufs Page_new,
      hashTable = [],
      clockHand = (bufs + 2 ^ 32 - 1) mod 2 ^ 32,
      disk = d,
      calls = [],
      advances = 0\<rparr>"

subsection \<open>advanceClock and allocBuf\<close>

text \<open>Lines 58-62. In C++ \<open>clockHand %= 0\<close> is undefined; \<open>BufMgr_wf\<close> excludes it.\<close>

definition advanceClock :: "'d BufMgr \<Rightarrow> 'd BufMgr" where
  "advanceClock s =
     s\<lparr>clockHand := ((clockHand s + 1) mod 2 ^ 32) mod numBufs s,
       advances := advances s + 1\<rparr>"

text \<open>
  Lines 85-91, the last branch of the loop body: the frame under the hand is valid, has
  \<open>refbit\<close> clear and is not pinned. Its entry is removed from the hash table first;
  then, when the frame is dirty, the dirty bit is cleared and then the page is written.
\<close>

definition allocBuf_evict :: "'d File_ops \<Rightarrow> 'd BufMgr \<Rightarrow> (exn + unit) \<times> 'd BufMgr" where
  "allocBuf_evict ops s =
     (let h = clockHand s; d = bufDescTable s ! h in
      case ht_remove (hashTable s) (file_p d, pageNo d) of
        Inl e \<Rightarrow> (Inl e, s)
      | Inr ht' \<Rightarrow>
          let s1 = s\<lparr>hashTable := ht'\<rparr> in
          if dirty d then
            let s2 = s1\<lparr>bufDescTable := (bufDescTable s1)[h := d\<lparr>dirty := False\<rparr>]\<rparr> in
            call_writePage ops (file_p d) (bufPool s2 ! h) s2
          else (Inr (), s1))"

text \<open>
  Lines 73-94, the loop \<open>for (i = 0; i <= numBufs; i++)\<close>, started at \<open>i\<close>. The result is
  the value of \<open>found\<close> (or the exception that left the loop), the value of \<open>i\<close> and the
  state when the loop is left.
\<close>

function allocBuf_loop ::
  "'d File_ops \<Rightarrow> nat \<Rightarrow> 'd BufMgr \<Rightarrow> (exn + bool) \<times> nat \<times> 'd BufMgr" where
  "allocBuf_loop ops i s =
     (if i \<le> numBufs s then
        let s1 = advanceClock s; h = clockHand s1; d = bufDescTable s1 ! h in
        if \<not> valid d then (Inr True, i, s1)
        else if refbit d then
          allocBuf_loop ops (i + 1)
            (s1\<lparr>bufDescTable := (bufDescTable s1)[h := d\<lparr>refbit := False\<rparr>]\<rparr>)
        else if pinCnt d \<noteq> 0 then allocBuf_loop ops (i + 1) s1
        else
          (case allocBuf_evict ops s1 of
             (Inl e, s2) \<Rightarrow> (Inl e, i, s2)
           | (Inr u, s2) \<Rightarrow> (Inr True, i, s2))
      else (Inr False, i, s))"
  by pat_completeness auto
termination
  by (relation "measure (\<lambda>(ops, i, s). numBufs s + 1 - i)")
     (auto simp: advanceClock_def)

text \<open>Lines 69-99.\<close>

definition allocBuf :: "'d File_ops \<Rightarrow> 'd BufMgr \<Rightarrow> (exn + FrameId) \<times> 'd BufMgr" where
  "allocBuf ops s =
     (case allocBuf_loop ops 0 s of
        (Inl e, i, s1) \<Rightarrow> (Inl e, s1)
      | (Inr found, i, s1) \<Rightarrow>
          if \<not> found \<and> i \<ge> numBufs s1 then (Inl BufferExceededException, s1)
          else
            (Inr (clockHand s1),
             s1\<lparr>bufDescTable :=
                 (bufDescTable s1)[clockHand s1 :=
                    BufDesc_Clear (bufDescTable s1 ! clockHand s1)]\<rparr>))"

subsection \<open>readPage, unPinPage, allocPage\<close>

text \<open>
  Lines 111-130. The handle returned through \<open>page\<close> is \<open>&bufPool[frameNum]\<close>; the model
  returns \<open>frameNum\<close>. The \<open>catch\<close> takes \<open>HashNotFoundException\<close> only, and an exception
  thrown inside the handler leaves \<open>readPage\<close>.
\<close>

definition readPage ::
  "'d File_ops \<Rightarrow> file_ptr \<Rightarrow> PageId \<Rightarrow> 'd BufMgr \<Rightarrow> (exn + FrameId) \<times> 'd BufMgr" where
  "readPage ops f p s =
     (case ht_lookup (hashTable s) (f, p) of
        Inr frameNum \<Rightarrow>
          let d = bufDescTable s ! frameNum;
              s1 = s\<lparr>bufDescTable := (bufDescTable s)[frameNum := d\<lparr>refbit := True\<rparr>]\<rparr>;
              d1 = bufDescTable s1 ! frameNum;
              s2 = s1\<lparr>bufDescTable :=
                     (bufDescTable s1)[frameNum := d1\<lparr>pinCnt := pinCnt d1 + 1\<rparr>]\<rparr>
          in (Inr frameNum, s2)
      | Inl e \<Rightarrow>
          if e \<noteq> HashNotFoundException then (Inl e, s)
          else
            (case allocBuf ops s of
               (Inl e1, s1) \<Rightarrow> (Inl e1, s1)
             | (Inr frameNum, s1) \<Rightarrow>
                 (case call_readPage ops f p s1 of
                    (Inl e2, s2) \<Rightarrow> (Inl e2, s2)
                  | (Inr pg, s2) \<Rightarrow>
                      let s3 = s2\<lparr>bufPool := (bufPool s2)[frameNum := pg]\<rparr> in
                      (case ht_insert (hashTable s3) (f, p) frameNum of
                         Inl e3 \<Rightarrow> (Inl e3, s3)
                       | Inr ht' \<Rightarrow>
                           (Inr frameNum,
                            s3\<lparr>hashTable := ht',
                               bufDescTable :=
                                 (bufDescTable s3)[frameNum :=
                                    BufDesc_Set (bufDescTable s3 ! frameNum) f p]\<rparr>)))))"

text \<open>Lines 138-153.\<close>

definition unPinPage ::
  "file_ptr \<Rightarrow> PageId \<Rightarrow> bool \<Rightarrow> 'd BufMgr \<Rightarrow> (exn + unit) \<times> 'd BufMgr" where
  "unPinPage f p dirty_arg s =
     (case ht_lookup (hashTable s) (f, p) of
        Inr frameNum \<Rightarrow>
          let d = bufDescTable s ! frameNum in
          if pinCnt d = 0 then (Inl (PageNotPinnedException f p frameNum), s)
          else
            let s1 = s\<lparr>bufDescTable :=
                       (bufDescTable s)[frameNum := d\<lparr>pinCnt := pinCnt d - 1\<rparr>]\<rparr>;
                d1 = bufDescTable s1 ! frameNum
            in if dirty_arg
               then (Inr (), s1\<lparr>bufDescTable := (bufDescTable s1)[frameNum := d1\<lparr>dirty := True\<rparr>]\<rparr>)
               else (Inr (), s1)
      | Inl e \<Rightarrow>
          if e = HashNotFoundException then (Inr (), s) else (Inl e, s))"

text \<open>Lines 161-170; the result is the pair of \<open>pageNo\<close> and the frame of \<open>page\<close>.\<close>

definition allocPage ::
  "'d File_ops \<Rightarrow> file_ptr \<Rightarrow> 'd BufMgr \<Rightarrow> (exn + PageId \<times> FrameId) \<times> 'd BufMgr" where
  "allocPage ops f s =
     (case allocBuf ops s of
        (Inl e1, s1) \<Rightarrow> (Inl e1, s1)
      | (Inr frameNum, s1) \<Rightarrow>
          (case call_allocatePage ops f s1 of
             (Inl e2, s2) \<Rightarrow> (Inl e2, s2)
           | (Inr pg, s2) \<Rightarrow>
               let s3 = s2\<lparr>bufPool := (bufPool s2)[frameNum := pg]\<rparr>;
                   p = page_number (bufPool s3 ! frameNum)
               in (case ht_insert (hashTable s3) (f, p) frameNum of
                     Inl e3 \<Rightarrow> (Inl e3, s3)
                   | Inr ht' \<Rightarrow>
                       (Inr (p, frameNum),
                        s3\<lparr>hashTable := ht',
                           bufDescTable :=
                             (bufDescTable s3)[frameNum :=
                                BufDesc_Set (bufDescTable s3 ! frameNum) f p]\<rparr>))))"

subsection \<open>flushFile and disposePage\<close>

text \<open>Lines 183-198, the body of the loop of \<open>flushFile\<close> at frame \<open>i\<close>.\<close>

definition flushFile_frame ::
  "'d File_ops \<Rightarrow> file_ptr \<Rightarrow> nat \<Rightarrow> 'd BufMgr \<Rightarrow> (exn + unit) \<times> 'd BufMgr" where
  "flushFile_frame ops f i s =
     (let d = bufDescTable s ! i in
      if file_p d = f \<and> \<not> valid d then
        (Inl (BadBufferException (frameNo d) (dirty d) (valid d) (refbit d)), s)
      else if file_p d = f \<and> valid d then
        if pinCnt d \<noteq> 0 then (Inl (PagePinnedException f (pageNo d) (frameNo d)), s)
        else
          (case (if dirty d then
                   (case call_writePage ops (file_p d) (bufPool s ! frameNo d) s of
                      (Inl e, s1) \<Rightarrow> (Inl e, s1)
                    | (Inr u, s1) \<Rightarrow>
                        (Inr (),
                         s1\<lparr>bufDescTable :=
                             (bufDescTable s1)[i := (bufDescTable s1 ! i)\<lparr>dirty := False\<rparr>]\<rparr>))
                 else (Inr (), s)) of
             (Inl e, s2) \<Rightarrow> (Inl e, s2)
           | (Inr u, s2) \<Rightarrow>
               (case ht_remove (hashTable s2) (f, pageNo (bufDescTable s2 ! i)) of
                  Inl e \<Rightarrow> (Inl e, s2)
                | Inr ht' \<Rightarrow>
                    (Inr (),
                     s2\<lparr>hashTable := ht',
                        bufDescTable :=
                          (bufDescTable s2)[i := BufDesc_Clear (bufDescTable s2 ! i)]\<rparr>)))
      else (Inr (), s))"

lemma call_writePage_numBufs:
  "numBufs (snd (call_writePage ops f pg s)) = numBufs s"
  by (simp add: call_writePage_def split: prod.splits)

lemma flushFile_frame_numBufs:
  "numBufs (snd (flushFile_frame ops f i s)) = numBufs s"
proof -
  have w: "\<And>g pg e s1. call_writePage ops g pg s = (e, s1) \<Longrightarrow> numBufs s1 = numBufs s"
    using call_writePage_numBufs [of ops _ _ s] by (metis snd_conv)
  show ?thesis
    unfolding flushFile_frame_def Let_def
    by (auto split: prod.splits sum.splits dest: w)
qed

text \<open>Lines 181-200, the loop \<open>for (i = 0; i < numBufs; i++)\<close>, started at \<open>i\<close>.\<close>

function flushFile_loop ::
  "'d File_ops \<Rightarrow> file_ptr \<Rightarrow> nat \<Rightarrow> 'd BufMgr \<Rightarrow> (exn + unit) \<times> 'd BufMgr" where
  "flushFile_loop ops f i s =
     (if i < numBufs s then
        (case flushFile_frame ops f i s of
           (Inl e, s1) \<Rightarrow> (Inl e, s1)
         | (Inr u, s1) \<Rightarrow> flushFile_loop ops f (i + 1) s1)
      else (Inr (), s))"
  by pat_completeness auto
termination
  apply (relation "measure (\<lambda>(ops, f, i, s). numBufs s - i)")
   apply simp
  subgoal for ops f i s x1 x2 u
    using flushFile_frame_numBufs [of ops f i s]
    by (cases "flushFile_frame ops f i s") auto
  done

text \<open>Lines 179-201.\<close>

definition flushFile :: "'d File_ops \<Rightarrow> file_ptr \<Rightarrow> 'd BufMgr \<Rightarrow> (exn + unit) \<times> 'd BufMgr" where
  "flushFile ops f s = flushFile_loop ops f 0 s"

text \<open>
  Lines 208-227. Everything between \<open>try\<close> and \<open>catch\<close> is inside the \<open>try\<close>, so a
  \<open>HashNotFoundException\<close> of \<open>remove\<close> would reach the handler too.
\<close>

definition disposePage ::
  "'d File_ops \<Rightarrow> file_ptr \<Rightarrow> PageId \<Rightarrow> 'd BufMgr \<Rightarrow> (exn + unit) \<times> 'd BufMgr" where
  "disposePage ops f p s =
     (case ht_lookup (hashTable s) (f, p) of
        Inl e \<Rightarrow>
          if e = HashNotFoundException then call_deletePage ops f p s else (Inl e, s)
      | Inr frameNum \<Rightarrow>
          (case (if dirty (bufDescTable s ! frameNum) then
                   call_writePage ops f (bufPool s ! frameNum)
                     (s\<lparr>bufDescTable :=
                         (bufDescTable s)[frameNum :=
                            (bufDescTable s ! frameNum)\<lparr>dirty := False\<rparr>]\<rparr>)
                 else (Inr (), s)) of
             (Inl e, s1) \<Rightarrow> (Inl e, s1)
           | (Inr u, s1) \<Rightarrow>
               let s2 = s1\<lparr>bufDescTable :=
                          (bufDescTable s1)[frameNum :=
                             BufDesc_Clear (bufDescTable s1 ! frameNum)]\<rparr>
               in (case ht_remove (hashTable s2) (f, p) of
                     Inl e \<Rightarrow>
                       if e = HashNotFoundException then call_deletePage ops f p s2
                       else (Inl e, s2)
                   | Inr ht' \<Rightarrow> call_deletePage ops f p (s2\<lparr>hashTable := ht'\<rparr>))))"

subsection \<open>Well-formed states\<close>

text \<open>
  The shape the constructor establishes and every method keeps: at least one frame
  (\<open>clockHand %= numBufs\<close> is undefined for \<open>numBufs = 0\<close>), fewer than \<open>2^32 - 1\<close>
  frames (the counter of \<open>for (i = 0; i <= numBufs; i++)\<close> reaches \<open>numBufs + 1\<close>), the
  two arrays have \<open>numBufs\<close> elements, the hand is inside the pool, and descriptor \<open>i\<close> has
  \<open>frameNo = i\<close>.
\<close>

definition BufMgr_wf :: "'d BufMgr \<Rightarrow> bool" where
  "BufMgr_wf s \<longleftrightarrow>
     0 < numBufs s \<and> numBufs s < 2 ^ 32 - 1 \<and>
     length (bufDescTable s) = numBufs s \<and>
     length (bufPool s) = numBufs s \<and>
     clockHand s < numBufs s \<and>
     map frameNo (bufDescTable s) = [0..<numBufs s]"

subsection \<open>The invariant of the page table\<close>

text \<open>
  The key under which a descriptor is entered in the hash table, and the entries of the
  table that map to a given frame.
\<close>

definition desc_key :: "BufDesc \<Rightarrow> hash_key" where
  "desc_key d = (file_p d, pageNo d)"

definition entries_of :: "BufHashTbl \<Rightarrow> FrameId \<Rightarrow> (hash_key \<times> FrameId) list" where
  "entries_of ht fr = filter (\<lambda>e. snd e = fr) ht"

text \<open>
  Sections 3.2 and 8 of the specification: no key occurs twice in the table; every entry
  maps to a frame of the pool; the descriptor of a frame is valid exactly when the
  entries that map to the frame are the single entry with the descriptor's own
  \<open>(file, pageNo)\<close>; and no entry maps to a frame that is not valid.
\<close>

definition pt_ok :: "nat \<Rightarrow> BufDesc list \<Rightarrow> BufHashTbl \<Rightarrow> bool" where
  "pt_ok n descs ht \<longleftrightarrow>
     distinct (map fst ht) \<and>
     (\<forall>e \<in> set ht. snd e < n) \<and>
     (\<forall>fr \<in> {0..<n}.
        (valid (descs ! fr) \<longleftrightarrow> entries_of ht fr = [(desc_key (descs ! fr), fr)]) \<and>
        (\<not> valid (descs ! fr) \<longrightarrow> entries_of ht fr = []))"

definition BufMgr_inv :: "'d BufMgr \<Rightarrow> bool" where
  "BufMgr_inv s \<longleftrightarrow> pt_ok (numBufs s) (bufDescTable s) (hashTable s)"

subsection \<open>The distance from the hand to a frame\<close>

text \<open>
  With \<open>n\<close> frames and the hand on \<open>h\<close>, frame \<open>j\<close> is reached by the advance number
  \<open>clock_dist n h j + 1\<close>; the frame under the hand is the last one, after \<open>n\<close> advances.
\<close>

definition clock_dist :: "nat \<Rightarrow> nat \<Rightarrow> nat \<Rightarrow> nat" where
  "clock_dist n h j = (if h < j then j - h - 1 else n + j - h - 1)"

subsection \<open>Files and pools for the examples\<close>

text \<open>
  Two instances of the operations of \<open>File\<close>. With \<open>mem_ops\<close> no call fails: the storage
  is the next fresh page number, \<open>allocatePage\<close> hands it out, \<open>readPage\<close> returns an empty
  page with the number asked for. With \<open>bad_ops\<close> every call throws.
\<close>

definition mem_ops :: "nat File_ops" where
  "mem_ops =
     \<lparr>File_readPage = (\<lambda>f p d. (Inr \<lparr>page_number = p, page_data = []\<rparr>, d)),
      File_writePage = (\<lambda>f pg d. (Inr (), d)),
      File_allocatePage = (\<lambda>f d. (Inr \<lparr>page_number = d, page_data = []\<rparr>, d + 1)),
      File_deletePage = (\<lambda>f p d. (Inr (), d))\<rparr>"

definition bad_ops :: "nat File_ops" where
  "bad_ops =
     \<lparr>File_readPage = (\<lambda>f p d. (Inl 1, d)),
      File_writePage = (\<lambda>f pg d. (Inl 2, d)),
      File_allocatePage = (\<lambda>f d. (Inl 3, d)),
      File_deletePage = (\<lambda>f p d. (Inl 4, d))\<rparr>"

text \<open>A valid descriptor, and the pool of two frames that holds two given descriptors,
  with the hand on frame 1.\<close>

definition ex_desc :: "file_ptr \<Rightarrow> PageId \<Rightarrow> FrameId \<Rightarrow> nat \<Rightarrow> bool \<Rightarrow> bool \<Rightarrow> BufDesc" where
  "ex_desc f p n c d r =
     \<lparr>file_p = f, pageNo = p, frameNo = n, pinCnt = c, dirty = d, valid = True, refbit = r\<rparr>"

definition ex_pool2 :: "BufDesc \<Rightarrow> BufDesc \<Rightarrow> nat BufMgr" where
  "ex_pool2 d0 d1 =
     \<lparr>numBufs = 2, bufDescTable = [d0, d1],
      bufPool = [\<lparr>page_number = pageNo d0, page_data = []\<rparr>,
                 \<lparr>page_number = pageNo d1, page_data = []\<rparr>],
      hashTable = [((file_p d1, pageNo d1), 1), ((file_p d0, pageNo d0), 0)],
      clockHand = 1, disk = 10, calls = [], advances = 0\<rparr>"

text \<open>
  A file on which \<open>writePage\<close> throws and everything else works, and two states reached
  from the constructor by public calls. \<open>ex_dirty\<close>: a pool of one frame after
  \<open>readPage(7, 1)\<close> and \<open>unPinPage(7, 1, true)\<close>. \<open>ex_reads\<close>: a pool of two frames after
  \<open>readPage(7, 1)\<close> twice, \<open>unPinPage(7, 1, false)\<close> once, \<open>readPage(7, 2)\<close> twice and
  \<open>unPinPage(7, 2, false)\<close> twice, so that page 1 is pinned once, page 2 is not pinned, and
  both frames have \<open>refbit\<close> set.
\<close>

definition wfail_ops :: "nat File_ops" where
  "wfail_ops = mem_ops\<lparr>File_writePage := (\<lambda>f pg d. (Inl 2, d))\<rparr>"

definition ex_dirty :: "nat BufMgr" where
  "ex_dirty = snd (unPinPage 7 1 True (snd (readPage wfail_ops 7 1 (BufMgr_new 1 0))))"

definition ex_reads :: "nat BufMgr" where
  "ex_reads =
     (snd (unPinPage 7 2 False
       (snd (unPinPage 7 2 False
       (snd (readPage mem_ops 7 2
       (snd (readPage mem_ops 7 2
       (snd (unPinPage 7 1 False
       (snd (readPage mem_ops 7 1
       (snd (readPage mem_ops 7 1
       (BufMgr_new 2 0)))))))))))))))"

section \<open>unPinPage\<close>

lemma unPinPage_absent:
  "ht_lookup (hashTable s) (f, p) = Inl HashNotFoundException \<Longrightarrow>
     unPinPage f p dflag s = (Inr (), s)"
  by (simp add: unPinPage_def)

lemma unPinPage_not_pinned:
  "ht_lookup (hashTable s) (f, p) = Inr fr \<Longrightarrow> pinCnt (bufDescTable s ! fr) = 0 \<Longrightarrow>
     unPinPage f p dflag s = (Inl (PageNotPinnedException f p fr), s)"
  by (simp add: unPinPage_def)

lemma unPinPage_pinned:
  "ht_lookup (hashTable s) (f, p) = Inr fr \<Longrightarrow> pinCnt (bufDescTable s ! fr) \<noteq> 0 \<Longrightarrow>
   fr < length (bufDescTable s) \<Longrightarrow>
      unPinPage f p dflag s =
        (Inr (),
         s\<lparr>bufDescTable := (bufDescTable s)[fr := (bufDescTable s ! fr)
               \<lparr>pinCnt := pinCnt (bufDescTable s ! fr) - 1,
                dirty := dirty (bufDescTable s ! fr) \<or> dflag\<rparr>]\<rparr>)"
  by (cases dflag) (simp_all add: unPinPage_def Let_def)

text \<open>
  Claim C6. \<open>unPinPage(file, pageNo, dirty)\<close>: when \<open>(file, pageNo)\<close> is not in the page
  table the call returns normally and the state is the one before the call; when the
  page is in frame \<open>fr\<close> and \<open>pinCnt\<close> is 0 it throws \<open>PageNotPinnedException\<close> (and
  nothing changes); otherwise the only change is in the descriptor of \<open>fr\<close>: \<open>pinCnt\<close> is
  one less and the dirty bit is the old one or-ed with the argument, so it is set when
  the argument is true and is never cleared.
\<close>

theorem unPinPage_spec:
  "(ht_lookup (hashTable s) (f, p) = Inl HashNotFoundException \<longrightarrow>
      unPinPage f p dflag s = (Inr (), s)) \<and>
   (ht_lookup (hashTable s) (f, p) = Inr fr \<and> pinCnt (bufDescTable s ! fr) = 0 \<longrightarrow>
      unPinPage f p dflag s = (Inl (PageNotPinnedException f p fr), s)) \<and>
   (ht_lookup (hashTable s) (f, p) = Inr fr \<and> pinCnt (bufDescTable s ! fr) \<noteq> 0 \<and>
      fr < length (bufDescTable s) \<longrightarrow>
      unPinPage f p dflag s =
        (Inr (),
         s\<lparr>bufDescTable := (bufDescTable s)[fr := (bufDescTable s ! fr)
               \<lparr>pinCnt := pinCnt (bufDescTable s ! fr) - 1,
                dirty := dirty (bufDescTable s ! fr) \<or> dflag\<rparr>]\<rparr>))"
  using unPinPage_absent [of s f p dflag] unPinPage_not_pinned [of s f p fr dflag]
    unPinPage_pinned [of s f p fr dflag]
  by blast

theorem unPinPage_spec_witness:
  "unPinPage 7 3 True (ex_pool2 (ex_desc 7 1 0 0 True False) (ex_desc 7 2 1 3 False True)) =
     (Inr (), ex_pool2 (ex_desc 7 1 0 0 True False) (ex_desc 7 2 1 3 False True)) \<and>
   unPinPage 7 1 True (ex_pool2 (ex_desc 7 1 0 0 True False) (ex_desc 7 2 1 3 False True)) =
     (Inl (PageNotPinnedException 7 1 0),
      ex_pool2 (ex_desc 7 1 0 0 True False) (ex_desc 7 2 1 3 False True)) \<and>
   unPinPage 7 2 True (ex_pool2 (ex_desc 7 1 0 0 True False) (ex_desc 7 2 1 3 False True)) =
     (Inr (), ex_pool2 (ex_desc 7 1 0 0 True False) (ex_desc 7 2 1 2 True True)) \<and>
   unPinPage 7 1 False (ex_pool2 (ex_desc 7 1 0 1 True False) (ex_desc 7 2 1 3 False True)) =
     (Inr (), ex_pool2 (ex_desc 7 1 0 0 True False) (ex_desc 7 2 1 3 False True))"
  using
    unPinPage_spec [of "ex_pool2 (ex_desc 7 1 0 0 True False) (ex_desc 7 2 1 3 False True)"
      7 3 True 0]
    unPinPage_spec [of "ex_pool2 (ex_desc 7 1 0 0 True False) (ex_desc 7 2 1 3 False True)"
      7 1 True 0]
    unPinPage_spec [of "ex_pool2 (ex_desc 7 1 0 0 True False) (ex_desc 7 2 1 3 False True)"
      7 2 True 1]
    unPinPage_spec [of "ex_pool2 (ex_desc 7 1 0 1 True False) (ex_desc 7 2 1 3 False True)"
      7 1 False 0]
  by (simp add: ex_pool2_def ex_desc_def ht_lookup_def)

section \<open>The page table and the descriptors agree\<close>

lemma distinct_set_single: "distinct xs \<Longrightarrow> set xs = {x} \<Longrightarrow> xs = [x]"
  by (cases xs) (auto simp: insert_eq_iff dest!: subset_singletonD)

lemma pt_ok_iff:
  "pt_ok n descs ht \<longleftrightarrow>
     distinct (map fst ht) \<and>
     (\<forall>k fr. (k, fr) \<in> set ht \<longrightarrow> fr < n \<and> valid (descs ! fr) \<and> k = desc_key (descs ! fr)) \<and>
     (\<forall>fr < n. valid (descs ! fr) \<longrightarrow> (desc_key (descs ! fr), fr) \<in> set ht)"
  (is "?L \<longleftrightarrow> ?A \<and> ?B \<and> ?C")
proof
  assume L: ?L
  have A: ?A using L by (simp add: pt_ok_def)
  have B: ?B
  proof (intro allI impI)
    fix k fr assume m: "(k, fr) \<in> set ht"
    then have lt: "fr < n" using L by (auto simp: pt_ok_def)
    have ne: "(k, fr) \<in> set (entries_of ht fr)" using m by (simp add: entries_of_def)
    have v: "valid (descs ! fr)"
      using L lt ne by (auto simp: pt_ok_def)
    then have "entries_of ht fr = [(desc_key (descs ! fr), fr)]"
      using L lt by (auto simp: pt_ok_def)
    with ne have "k = desc_key (descs ! fr)" by simp
    with lt v show "fr < n \<and> valid (descs ! fr) \<and> k = desc_key (descs ! fr)" by simp
  qed
  have C: ?C
  proof (intro allI impI)
    fix fr assume "fr < n" "valid (descs ! fr)"
    then have "entries_of ht fr = [(desc_key (descs ! fr), fr)]"
      using L by (auto simp: pt_ok_def)
    then have "(desc_key (descs ! fr), fr) \<in> set (entries_of ht fr)" by simp
    then show "(desc_key (descs ! fr), fr) \<in> set ht" by (simp add: entries_of_def)
  qed
  from A B C show "?A \<and> ?B \<and> ?C" by blast
next
  assume R: "?A \<and> ?B \<and> ?C"
  then have A: ?A and B: ?B and C: ?C by blast+
  have d: "distinct ht" using A by (simp add: distinct_map)
  have "\<forall>e \<in> set ht. snd e < n" using B by auto
  moreover have "\<forall>fr \<in> {0..<n}.
        (valid (descs ! fr) \<longleftrightarrow> entries_of ht fr = [(desc_key (descs ! fr), fr)]) \<and>
        (\<not> valid (descs ! fr) \<longrightarrow> entries_of ht fr = [])"
  proof
    fix fr assume "fr \<in> {0..<n}"
    then have lt: "fr < n" by simp
    have sub: "set (entries_of ht fr) \<subseteq> {(desc_key (descs ! fr), fr)}"
      using B by (auto simp: entries_of_def)
    have dd: "distinct (entries_of ht fr)" using d by (simp add: entries_of_def)
    show "(valid (descs ! fr) \<longleftrightarrow> entries_of ht fr = [(desc_key (descs ! fr), fr)]) \<and>
        (\<not> valid (descs ! fr) \<longrightarrow> entries_of ht fr = [])"
    proof (cases "valid (descs ! fr)")
      case True
      then have "(desc_key (descs ! fr), fr) \<in> set (entries_of ht fr)"
        using C lt by (simp add: entries_of_def)
      with sub have "set (entries_of ht fr) = {(desc_key (descs ! fr), fr)}" by blast
      with dd have "entries_of ht fr = [(desc_key (descs ! fr), fr)]"
        by (rule distinct_set_single)
      with True show ?thesis by simp
    next
      case False
      have "set (entries_of ht fr) = {}"
      proof (rule ccontr)
        assume "set (entries_of ht fr) \<noteq> {}"
        then obtain e where "e \<in> set (entries_of ht fr)" by fastforce
        then have "(fst e, fr) \<in> set ht" by (auto simp: entries_of_def)
        with B have "valid (descs ! fr)" by blast
        with False show False by simp
      qed
      then have "entries_of ht fr = []" by simp
      with False show ?thesis by simp
    qed
  qed
  ultimately show ?L using A by (simp add: pt_ok_def)
qed


lemma pt_ok_cong:
  assumes ok: "pt_ok n descs ht"
    and same: "\<And>fr. fr < n \<Longrightarrow> valid (descs' ! fr) = valid (descs ! fr) \<and>
                 (valid (descs ! fr) \<longrightarrow> desc_key (descs' ! fr) = desc_key (descs ! fr))"
  shows "pt_ok n descs' ht"
  using ok same unfolding pt_ok_iff by metis

lemma pt_ok_remove:
  assumes ok: "pt_ok n descs ht"
    and h: "h < n" "h < length descs"
    and v: "valid (descs ! h)"
    and d': "\<not> valid d'"
  shows "pt_ok n (descs[h := d']) (filter (\<lambda>e. fst e \<noteq> desc_key (descs ! h)) ht)"
proof -
  let ?k = "desc_key (descs ! h)"
  let ?ht = "filter (\<lambda>e. fst e \<noteq> ?k) ht"
  from ok have A: "distinct (map fst ht)"
    and B: "\<And>k fr. (k, fr) \<in> set ht \<Longrightarrow> fr < n \<and> valid (descs ! fr) \<and> k = desc_key (descs ! fr)"
    and C: "\<And>fr. fr < n \<Longrightarrow> valid (descs ! fr) \<Longrightarrow> (desc_key (descs ! fr), fr) \<in> set ht"
    unfolding pt_ok_iff by blast+
  have A': "distinct (map fst ?ht)" using A by (rule distinct_map_filter)
  have B': "fr < n \<and> valid (descs[h := d'] ! fr) \<and> k = desc_key (descs[h := d'] ! fr)"
    if m: "(k, fr) \<in> set ?ht" for k fr
  proof -
    from m have m0: "(k, fr) \<in> set ht" and ne: "k \<noteq> ?k" by auto
    from B [OF m0] have b: "fr < n" "valid (descs ! fr)" "k = desc_key (descs ! fr)" by blast+
    from b(3) ne have "fr \<noteq> h" by auto
    with b show ?thesis by simp
  qed
  have C': "(desc_key (descs[h := d'] ! fr), fr) \<in> set ?ht"
    if lt: "fr < n" and vv: "valid (descs[h := d'] ! fr)" for fr
  proof -
    have neq: "fr \<noteq> h" using vv d' h by auto
    then have e: "descs[h := d'] ! fr = descs ! fr" by simp
    with vv lt C have m: "(desc_key (descs ! fr), fr) \<in> set ht" by simp
    have "desc_key (descs ! fr) \<noteq> ?k"
    proof
      assume eq: "desc_key (descs ! fr) = ?k"
      from C [OF h(1) v] have "(?k, h) \<in> set ht" .
      with m eq A have "fr = h" by (metis eq_key_imp_eq_value)
      with neq show False by simp
    qed
    with m e show ?thesis by simp
  qed
  show ?thesis unfolding pt_ok_iff using A' B' C' by blast
qed

lemma pt_ok_insert:
  assumes ok: "pt_ok n descs ht"
    and h: "h < n" "h < length descs"
    and nv: "\<not> valid (descs ! h)"
    and d': "valid d'" "desc_key d' = k"
    and fresh: "map_of ht k = None"
  shows "pt_ok n (descs[h := d']) ((k, h) # ht)"
proof -
  from ok have A: "distinct (map fst ht)"
    and B: "\<And>k fr. (k, fr) \<in> set ht \<Longrightarrow> fr < n \<and> valid (descs ! fr) \<and> k = desc_key (descs ! fr)"
    and C: "\<And>fr. fr < n \<Longrightarrow> valid (descs ! fr) \<Longrightarrow> (desc_key (descs ! fr), fr) \<in> set ht"
    unfolding pt_ok_iff by blast+
  have nk: "k \<notin> fst ` set ht" using fresh by (simp add: map_of_eq_None_iff)
  have A': "distinct (map fst ((k, h) # ht))" using A nk by simp
  have B': "fr < n \<and> valid (descs[h := d'] ! fr) \<and> k' = desc_key (descs[h := d'] ! fr)"
    if m: "(k', fr) \<in> set ((k, h) # ht)" for k' fr
  proof (cases "(k', fr) = (k, h)")
    case True
    with h d' show ?thesis by simp
  next
    case False
    with m have m0: "(k', fr) \<in> set ht" by auto
    from B [OF m0] have b: "fr < n" "valid (descs ! fr)" "k' = desc_key (descs ! fr)" by blast+
    from b(2) nv have "fr \<noteq> h" by auto
    with b show ?thesis by simp
  qed
  have C': "(desc_key (descs[h := d'] ! fr), fr) \<in> set ((k, h) # ht)"
    if lt: "fr < n" and vv: "valid (descs[h := d'] ! fr)" for fr
  proof (cases "fr = h")
    case True
    with h d' show ?thesis by simp
  next
    case False
    then have e: "descs[h := d'] ! fr = descs ! fr" by simp
    with vv lt C show ?thesis by simp
  qed
  show ?thesis unfolding pt_ok_iff using A' B' C' by blast
qed


lemma map_frameNo_update:
  "frameNo d' = frameNo (descs ! i) \<Longrightarrow> map frameNo (descs[i := d']) = map frameNo descs"
  by (cases "i < length descs") (simp_all add: map_update list_update_same_conv list_update_beyond)

lemma wf_desc_update:
  "BufMgr_wf s \<Longrightarrow> frameNo d' = frameNo (bufDescTable s ! i) \<Longrightarrow>
     BufMgr_wf (s\<lparr>bufDescTable := (bufDescTable s)[i := d']\<rparr>)"
  by (simp add: BufMgr_wf_def map_frameNo_update)


lemma frameNo_Clear [simp]: "frameNo (BufDesc_Clear d) = frameNo d"
  by (simp add: BufDesc_Clear_def)

lemma frameNo_Set [simp]: "frameNo (BufDesc_Set d f p) = frameNo d"
  by (simp add: BufDesc_Set_def)

lemma valid_Clear [simp]: "\<not> valid (BufDesc_Clear d)"
  by (simp add: BufDesc_Clear_def)

lemma valid_Set [simp]: "valid (BufDesc_Set d f p)"
  by (simp add: BufDesc_Set_def)

lemma key_Set [simp]: "desc_key (BufDesc_Set d f p) = (f, p)"
  by (simp add: BufDesc_Set_def desc_key_def)

lemma wf_other_updates [simp]:
  "BufMgr_wf (s\<lparr>hashTable := ht\<rparr>) = BufMgr_wf s"
  "BufMgr_wf (s\<lparr>disk := d\<rparr>) = BufMgr_wf s"
  "BufMgr_wf (s\<lparr>calls := c\<rparr>) = BufMgr_wf s"
  "BufMgr_wf (s\<lparr>advances := a\<rparr>) = BufMgr_wf s"
  "BufMgr_wf (s\<lparr>bufPool := (bufPool s)[i := pg]\<rparr>) = BufMgr_wf s"
  by (simp_all add: BufMgr_wf_def)

lemma inv_other_updates [simp]:
  "BufMgr_inv (s\<lparr>disk := d\<rparr>) = BufMgr_inv s"
  "BufMgr_inv (s\<lparr>calls := c\<rparr>) = BufMgr_inv s"
  "BufMgr_inv (s\<lparr>advances := a\<rparr>) = BufMgr_inv s"
  "BufMgr_inv (s\<lparr>bufPool := bp\<rparr>) = BufMgr_inv s"
  "BufMgr_inv (s\<lparr>clockHand := h\<rparr>) = BufMgr_inv s"
  by (simp_all add: BufMgr_inv_def)

subsection \<open>advanceClock and the calls to files\<close>

lemma advanceClock_hand:
  "BufMgr_wf s \<Longrightarrow>
     clockHand (advanceClock s) = (if clockHand s + 1 = numBufs s then 0 else clockHand s + 1)"
  by (auto simp: advanceClock_def BufMgr_wf_def)

lemma advanceClock_fields [simp]:
  "numBufs (advanceClock s) = numBufs s"
  "bufDescTable (advanceClock s) = bufDescTable s"
  "bufPool (advanceClock s) = bufPool s"
  "hashTable (advanceClock s) = hashTable s"
  "disk (advanceClock s) = disk s"
  "calls (advanceClock s) = calls s"
  "advances (advanceClock s) = advances s + 1"
  by (simp_all add: advanceClock_def)

lemma advanceClock_wf: "BufMgr_wf s \<Longrightarrow> BufMgr_wf (advanceClock s)"
  by (simp add: advanceClock_def BufMgr_wf_def)

lemma advanceClock_inv [simp]: "BufMgr_inv (advanceClock s) = BufMgr_inv s"
  by (simp add: BufMgr_inv_def)

lemma call_writePage_fields:
  "call_writePage ops f pg s = (r, s') \<Longrightarrow>
     s' = s\<lparr>disk := disk s', calls := calls s @ [WritePage f pg]\<rparr>"
  by (auto simp: call_writePage_def split: prod.splits)

lemma call_readPage_fields:
  "call_readPage ops f p s = (r, s') \<Longrightarrow>
     s' = s\<lparr>disk := disk s', calls := calls s @ [ReadPage f p]\<rparr>"
  by (auto simp: call_readPage_def split: prod.splits)

lemma call_allocatePage_fields:
  "call_allocatePage ops f s = (r, s') \<Longrightarrow>
     s' = s\<lparr>disk := disk s', calls := calls s @ [AllocatePage f]\<rparr>"
  by (auto simp: call_allocatePage_def split: prod.splits)

lemma call_deletePage_fields:
  "call_deletePage ops f p s = (r, s') \<Longrightarrow>
     s' = s\<lparr>disk := disk s', calls := calls s @ [DeletePage f p]\<rparr>"
  by (auto simp: call_deletePage_def split: prod.splits)


subsection \<open>The hash table\<close>

lemma ht_remove_Inr: "ht_remove ht k = Inr ht' \<Longrightarrow> ht' = filter (\<lambda>e. fst e \<noteq> k) ht"
  by (auto simp: ht_remove_def split: option.splits)

lemma ht_remove_Inl: "ht_remove ht k = Inl e \<Longrightarrow> e = HashNotFoundException \<and> map_of ht k = None"
  by (auto simp: ht_remove_def split: option.splits)

lemma ht_remove_present: "map_of ht k = Some fr \<Longrightarrow> ht_remove ht k = Inr (filter (\<lambda>e. fst e \<noteq> k) ht)"
  by (simp add: ht_remove_def)

lemma map_of_filter_key:
  "map_of (filter (\<lambda>e. fst e \<noteq> k) ht) k' = (if k' = k then None else map_of ht k')"
  by (induction ht) auto

lemma ht_insert_Inr: "ht_insert ht k fr = Inr ht' \<Longrightarrow> ht' = (k, fr) # ht \<and> map_of ht k = None"
  by (auto simp: ht_insert_def split: option.splits)

lemma ht_lookup_Inr: "ht_lookup ht k = Inr fr \<longleftrightarrow> map_of ht k = Some fr"
  by (auto simp: ht_lookup_def split: option.splits)

lemma ht_lookup_Inl: "ht_lookup ht k = Inl e \<longleftrightarrow> e = HashNotFoundException \<and> map_of ht k = None"
  by (auto simp: ht_lookup_def split: option.splits)

lemma inv_lookup:
  assumes "BufMgr_inv s" "map_of (hashTable s) k = Some fr"
  shows "fr < numBufs s \<and> valid (bufDescTable s ! fr) \<and> desc_key (bufDescTable s ! fr) = k"
proof -
  from assms(2) have "(k, fr) \<in> set (hashTable s)" by (rule map_of_SomeD)
  with assms(1) show ?thesis unfolding BufMgr_inv_def pt_ok_iff by blast
qed

lemma inv_valid_lookup:
  assumes "BufMgr_inv s" "fr < numBufs s" "valid (bufDescTable s ! fr)"
  shows "map_of (hashTable s) (desc_key (bufDescTable s ! fr)) = Some fr"
proof -
  from assms have "(desc_key (bufDescTable s ! fr), fr) \<in> set (hashTable s)"
    and "distinct (map fst (hashTable s))"
    unfolding BufMgr_inv_def pt_ok_iff by blast+
  then show ?thesis by simp
qed

subsection \<open>Eviction\<close>

lemma allocBuf_evict_cases:
  assumes "allocBuf_evict ops s = (r, s2)"
  obtains
    (absent) e where "ht_remove (hashTable s) (desc_key (bufDescTable s ! clockHand s)) = Inl e"
      "r = Inl e" "s2 = s"
  | (clean) ht' where "ht_remove (hashTable s) (desc_key (bufDescTable s ! clockHand s)) = Inr ht'"
      "\<not> dirty (bufDescTable s ! clockHand s)" "r = Inr ()" "s2 = s\<lparr>hashTable := ht'\<rparr>"
  | (dirty) ht' where "ht_remove (hashTable s) (desc_key (bufDescTable s ! clockHand s)) = Inr ht'"
      "dirty (bufDescTable s ! clockHand s)"
      "call_writePage ops (file_p (bufDescTable s ! clockHand s)) (bufPool s ! clockHand s)
         (s\<lparr>hashTable := ht',
            bufDescTable := (bufDescTable s)[clockHand s :=
               (bufDescTable s ! clockHand s)\<lparr>dirty := False\<rparr>]\<rparr>) = (r, s2)"
  using assms unfolding allocBuf_evict_def Let_def desc_key_def
  by (auto split: sum.splits if_splits)


lemma allocBuf_evict_wf:
  assumes w: "BufMgr_wf s" and e: "allocBuf_evict ops s = (r, s2)"
  shows "BufMgr_wf s2 \<and> numBufs s2 = numBufs s \<and> clockHand s2 = clockHand s \<and>
         advances s2 = advances s"
  using e
proof (cases rule: allocBuf_evict_cases)
  case (absent e)
  with w show ?thesis by simp
next
  case (clean ht')
  with w show ?thesis by simp
next
  case (dirty ht')
  from call_writePage_fields [OF dirty(3)] obtain dk cl where
    s2: "s2 = s\<lparr>hashTable := ht',
            bufDescTable := (bufDescTable s)[clockHand s :=
               (bufDescTable s ! clockHand s)\<lparr>dirty := False\<rparr>], disk := dk, calls := cl\<rparr>"
    by simp
  have "BufMgr_wf (s\<lparr>bufDescTable := (bufDescTable s)[clockHand s :=
               (bufDescTable s ! clockHand s)\<lparr>dirty := False\<rparr>]\<rparr>)"
    using w by (rule wf_desc_update) simp
  then show ?thesis unfolding s2 by (simp add: BufMgr_wf_def)
qed

lemma allocBuf_evict_ht:
  assumes e: "allocBuf_evict ops s = (r, s2)" and n: "map_of (hashTable s) k = None"
  shows "map_of (hashTable s2) k = None"
  using e
proof (cases rule: allocBuf_evict_cases)
  case (absent e)
  with n show ?thesis by simp
next
  case (clean ht')
  with n ht_remove_Inr [OF clean(1)] show ?thesis by (simp add: map_of_filter_key)
next
  case (dirty ht')
  from call_writePage_fields [OF dirty(3)] have "hashTable s2 = ht'"
    by (metis (no_types, lifting) BufMgr.select_convs BufMgr.surjective BufMgr.update_convs)
  with n ht_remove_Inr [OF dirty(1)] show ?thesis by (simp add: map_of_filter_key)
qed

lemma allocBuf_evict_inv:
  assumes w: "BufMgr_wf s" and i: "BufMgr_inv s"
    and v: "valid (bufDescTable s ! clockHand s)"
    and e: "allocBuf_evict ops s = (Inr u, s2)"
  shows "BufMgr_inv (s2\<lparr>bufDescTable := (bufDescTable s2)[clockHand s2 :=
            BufDesc_Clear (bufDescTable s2 ! clockHand s2)]\<rparr>)"
proof -
  let ?h = "clockHand s"
  let ?ds = "bufDescTable s"
  have h: "?h < numBufs s" "?h < length ?ds" using w by (simp_all add: BufMgr_wf_def)
  have ok: "pt_ok (numBufs s) ?ds (hashTable s)" using i by (simp add: BufMgr_inv_def)
  have key: "pt_ok (numBufs s) (?ds[?h := d'])
      (filter (\<lambda>e. fst e \<noteq> desc_key (?ds ! ?h)) (hashTable s))" if "\<not> valid d'" for d'
    using ok h v that by (rule pt_ok_remove)
  from e show ?thesis
  proof (cases rule: allocBuf_evict_cases)
    case (absent e)
    then show ?thesis by simp
  next
    case (clean ht')
    from ht_remove_Inr [OF clean(1)] clean(4) key [of "BufDesc_Clear (?ds ! ?h)"]
    show ?thesis by (simp add: BufMgr_inv_def)
  next
    case (dirty ht')
    from call_writePage_fields [OF dirty(3)] obtain dk cl where
      s2: "s2 = s\<lparr>hashTable := ht',
            bufDescTable := ?ds[?h := (?ds ! ?h)\<lparr>dirty := False\<rparr>], disk := dk, calls := cl\<rparr>"
      by simp
    from ht_remove_Inr [OF dirty(1)] key [of "BufDesc_Clear ((?ds ! ?h)\<lparr>dirty := False\<rparr>)"] h
    show ?thesis unfolding s2 by (simp add: BufMgr_inv_def)
  qed
qed

subsection \<open>The loop of allocBuf\<close>

declare allocBuf_loop.simps [simp del]

lemma allocBuf_loop_exit:
  "\<not> i \<le> numBufs s \<Longrightarrow> allocBuf_loop ops i s = (Inr False, i, s)"
  by (subst allocBuf_loop.simps) simp

lemma allocBuf_loop_invalid:
  "i \<le> numBufs s \<Longrightarrow> \<not> valid (bufDescTable s ! clockHand (advanceClock s)) \<Longrightarrow>
     allocBuf_loop ops i s = (Inr True, i, advanceClock s)"
  by (subst allocBuf_loop.simps) (simp add: Let_def)

lemma allocBuf_loop_refbit:
  "i \<le> numBufs s \<Longrightarrow> valid (bufDescTable s ! clockHand (advanceClock s)) \<Longrightarrow>
   refbit (bufDescTable s ! clockHand (advanceClock s)) \<Longrightarrow>
     allocBuf_loop ops i s =
       allocBuf_loop ops (i + 1)
         ((advanceClock s)\<lparr>bufDescTable := (bufDescTable s)[clockHand (advanceClock s) :=
             (bufDescTable s ! clockHand (advanceClock s))\<lparr>refbit := False\<rparr>]\<rparr>)"
  by (subst allocBuf_loop.simps) (simp add: Let_def)

lemma allocBuf_loop_pinned:
  "i \<le> numBufs s \<Longrightarrow> valid (bufDescTable s ! clockHand (advanceClock s)) \<Longrightarrow>
   \<not> refbit (bufDescTable s ! clockHand (advanceClock s)) \<Longrightarrow>
   pinCnt (bufDescTable s ! clockHand (advanceClock s)) \<noteq> 0 \<Longrightarrow>
     allocBuf_loop ops i s = allocBuf_loop ops (i + 1) (advanceClock s)"
  by (subst allocBuf_loop.simps) (simp add: Let_def)

lemma allocBuf_loop_evict:
  "i \<le> numBufs s \<Longrightarrow> valid (bufDescTable s ! clockHand (advanceClock s)) \<Longrightarrow>
   \<not> refbit (bufDescTable s ! clockHand (advanceClock s)) \<Longrightarrow>
   pinCnt (bufDescTable s ! clockHand (advanceClock s)) = 0 \<Longrightarrow>
     allocBuf_loop ops i s =
       (case allocBuf_evict ops (advanceClock s) of
          (Inl e, s2) \<Rightarrow> (Inl e, i, s2)
        | (Inr u, s2) \<Rightarrow> (Inr True, i, s2))"
  by (subst allocBuf_loop.simps) (simp add: Let_def)

lemma allocBuf_loop_cases_induct [case_names exit invalid refbit pinned evict]:
  assumes "\<And>i s. \<not> i \<le> numBufs s \<Longrightarrow> P i s"
    and "\<And>i s. i \<le> numBufs s \<Longrightarrow> \<not> valid (bufDescTable s ! clockHand (advanceClock s)) \<Longrightarrow> P i s"
    and "\<And>i s. i \<le> numBufs s \<Longrightarrow> valid (bufDescTable s ! clockHand (advanceClock s)) \<Longrightarrow>
           refbit (bufDescTable s ! clockHand (advanceClock s)) \<Longrightarrow>
           P (i + 1) ((advanceClock s)\<lparr>bufDescTable := (bufDescTable s)[clockHand (advanceClock s) :=
             (bufDescTable s ! clockHand (advanceClock s))\<lparr>refbit := False\<rparr>]\<rparr>) \<Longrightarrow> P i s"
    and "\<And>i s. i \<le> numBufs s \<Longrightarrow> valid (bufDescTable s ! clockHand (advanceClock s)) \<Longrightarrow>
           \<not> refbit (bufDescTable s ! clockHand (advanceClock s)) \<Longrightarrow>
           pinCnt (bufDescTable s ! clockHand (advanceClock s)) \<noteq> 0 \<Longrightarrow>
           P (i + 1) (advanceClock s) \<Longrightarrow> P i s"
    and "\<And>i s. i \<le> numBufs s \<Longrightarrow> valid (bufDescTable s ! clockHand (advanceClock s)) \<Longrightarrow>
           \<not> refbit (bufDescTable s ! clockHand (advanceClock s)) \<Longrightarrow>
           pinCnt (bufDescTable s ! clockHand (advanceClock s)) = 0 \<Longrightarrow> P i s"
  shows "P i (s :: 'd BufMgr)"
proof (induction "numBufs s + 1 - i" arbitrary: i s rule: less_induct)
  case less
  show ?case
  proof (cases "i \<le> numBufs s")
    case False
    then show ?thesis by (rule assms(1))
  next
    case True
    let ?d = "bufDescTable s ! clockHand (advanceClock s)"
    show ?thesis
    proof (cases "valid ?d")
      case False
      with True show ?thesis by (rule assms(2))
    next
      case v: True
      show ?thesis
      proof (cases "refbit ?d")
        case r: True
        show ?thesis
          by (rule assms(3) [OF True v r], rule less) (use True in simp)
      next
        case r: False
        show ?thesis
        proof (cases "pinCnt ?d = 0")
          case p: False
          show ?thesis
            by (rule assms(4) [OF True v r p], rule less) (use True in simp)
        next
          case p: True
          show ?thesis by (rule assms(5) [OF True v r p])
        qed
      qed
    qed
  qed
qed


lemma nth_list_update_full:
  "(xs[h := y]) ! j = (if h = j \<and> h < length xs then y else xs ! j)"
  by (cases "h < length xs") (simp_all add: nth_list_update list_update_beyond)

lemma wf_clear_refbit:
  "BufMgr_wf s \<Longrightarrow>
   BufMgr_wf ((advanceClock s)\<lparr>bufDescTable := (bufDescTable s)[clockHand (advanceClock s) :=
             (bufDescTable s ! clockHand (advanceClock s))\<lparr>refbit := False\<rparr>]\<rparr>)"
  using wf_desc_update [OF advanceClock_wf, of s
      "(bufDescTable s ! clockHand (advanceClock s))\<lparr>refbit := False\<rparr>"
      "clockHand (advanceClock s)"]
  by simp

lemma inv_clear_refbit:
  "BufMgr_inv s \<Longrightarrow>
   BufMgr_inv ((advanceClock s)\<lparr>bufDescTable := (bufDescTable s)[h :=
             (bufDescTable s ! h)\<lparr>refbit := False\<rparr>]\<rparr>)"
  unfolding BufMgr_inv_def
  by (rule pt_ok_cong [where descs = "bufDescTable s"])
     (auto simp: nth_list_update_full desc_key_def)

lemma allocBuf_loop_wf:
  "BufMgr_wf s \<Longrightarrow> allocBuf_loop ops i s = (r, i', s') \<Longrightarrow>
     BufMgr_wf s' \<and> numBufs s' = numBufs s"
proof (induction i s rule: allocBuf_loop_cases_induct)
  case (exit i s)
  then show ?case by (simp add: allocBuf_loop_exit)
next
  case (invalid i s)
  then show ?case by (auto simp: allocBuf_loop_invalid advanceClock_wf)
next
  case (refbit i s)
  from refbit(4) [OF wf_clear_refbit [OF refbit(5)]] refbit(1,2,3,6)
  show ?case by (simp add: allocBuf_loop_refbit)
next
  case (pinned i s)
  from pinned(5) [OF advanceClock_wf [OF pinned(6)]] pinned(1-4,7)
  show ?case by (simp add: allocBuf_loop_pinned)
next
  case (evict i s)
  obtain r2 s2 where e: "allocBuf_evict ops (advanceClock s) = (r2, s2)" by fastforce
  from allocBuf_evict_wf [OF advanceClock_wf [OF evict(5)] e]
  have "BufMgr_wf s2 \<and> numBufs s2 = numBufs s" by simp
  moreover have "s' = s2"
    using evict e by (auto simp: allocBuf_loop_evict split: sum.splits)
  ultimately show ?case by simp
qed

lemma allocBuf_loop_ht:
  "map_of (hashTable s) k = None \<Longrightarrow> allocBuf_loop ops i s = (r, i', s') \<Longrightarrow>
     map_of (hashTable s') k = None"
proof (induction i s rule: allocBuf_loop_cases_induct)
  case (exit i s)
  then show ?case by (simp add: allocBuf_loop_exit)
next
  case (invalid i s)
  then show ?case by (auto simp: allocBuf_loop_invalid)
next
  case (refbit i s)
  then show ?case by (simp add: allocBuf_loop_refbit)
next
  case (pinned i s)
  then show ?case by (simp add: allocBuf_loop_pinned)
next
  case (evict i s)
  obtain r2 s2 where e: "allocBuf_evict ops (advanceClock s) = (r2, s2)" by fastforce
  have "map_of (hashTable s2) k = None"
    by (rule allocBuf_evict_ht [OF e]) (use evict in simp)
  moreover have "s' = s2"
    using evict e by (auto simp: allocBuf_loop_evict split: sum.splits)
  ultimately show ?case by simp
qed

lemma allocBuf_loop_inv:
  "BufMgr_wf s \<Longrightarrow> BufMgr_inv s \<Longrightarrow> allocBuf_loop ops i s = (r, i', s') \<Longrightarrow>
     (r = Inr False \<longrightarrow> BufMgr_inv s') \<and>
     (r = Inr True \<longrightarrow>
        BufMgr_inv (s'\<lparr>bufDescTable := (bufDescTable s')[clockHand s' :=
            BufDesc_Clear (bufDescTable s' ! clockHand s')]\<rparr>))"
proof (induction i s rule: allocBuf_loop_cases_induct)
  case (exit i s)
  then show ?case by (auto simp: allocBuf_loop_exit)
next
  case (invalid i s)
  have "BufMgr_inv ((advanceClock s)\<lparr>bufDescTable := (bufDescTable s)[clockHand (advanceClock s) :=
            BufDesc_Clear (bufDescTable s ! clockHand (advanceClock s))]\<rparr>)"
    using invalid(4) unfolding BufMgr_inv_def
    by (simp, rule pt_ok_cong [where descs = "bufDescTable s"])
       (use invalid(2) in \<open>auto simp: nth_list_update_full\<close>)
  with invalid show ?case by (auto simp: allocBuf_loop_invalid)
next
  case (refbit i s)
  from refbit(4) [OF wf_clear_refbit [OF refbit(5)] inv_clear_refbit [OF refbit(6)]]
    refbit(1,2,3,7)
  show ?case by (simp add: allocBuf_loop_refbit)
next
  case (pinned i s)
  from pinned(5) [OF advanceClock_wf [OF pinned(6)]] pinned(1-4,7,8)
  show ?case by (simp add: allocBuf_loop_pinned)
next
  case (evict i s)
  obtain r2 s2 where e: "allocBuf_evict ops (advanceClock s) = (r2, s2)" by fastforce
  have eq: "s' = s2" "r = (case r2 of Inl e \<Rightarrow> Inl e | Inr u \<Rightarrow> Inr True)"
    using evict e by (auto simp: allocBuf_loop_evict split: sum.splits)
  show ?case
  proof (cases r2)
    case (Inl a)
    with eq show ?thesis by simp
  next
    case (Inr u)
    have "BufMgr_inv (s2\<lparr>bufDescTable := (bufDescTable s2)[clockHand s2 :=
            BufDesc_Clear (bufDescTable s2 ! clockHand s2)]\<rparr>)"
      by (rule allocBuf_evict_inv [OF advanceClock_wf [OF evict(5)] _ _ e [unfolded Inr]])
         (use evict in simp_all)
    with eq Inr show ?thesis by simp
  qed
qed


lemma allocBuf_loop_not_found:
  "allocBuf_loop ops i s = (Inr False, i', s') \<Longrightarrow> \<not> i' \<le> numBufs s'"
proof (induction i s rule: allocBuf_loop_cases_induct)
  case (exit i s)
  then show ?case by (auto simp: allocBuf_loop_exit)
next
  case (invalid i s)
  then show ?case by (auto simp: allocBuf_loop_invalid)
next
  case (refbit i s)
  then show ?case by (simp add: allocBuf_loop_refbit)
next
  case (pinned i s)
  then show ?case by (simp add: allocBuf_loop_pinned)
next
  case (evict i s)
  then show ?case by (auto simp: allocBuf_loop_evict split: sum.splits prod.splits)
qed

lemma allocBuf_cases:
  assumes "allocBuf ops s = (r, s')"
  obtains
    (thrown) e i where "allocBuf_loop ops 0 s = (Inl e, i, s')" "r = Inl e"
  | (exceeded) i where "allocBuf_loop ops 0 s = (Inr False, i, s')"
      "r = Inl BufferExceededException"
  | (found) i s1 where "allocBuf_loop ops 0 s = (Inr True, i, s1)"
      "r = Inr (clockHand s1)"
      "s' = s1\<lparr>bufDescTable := (bufDescTable s1)[clockHand s1 :=
                    BufDesc_Clear (bufDescTable s1 ! clockHand s1)]\<rparr>"
proof -
  obtain r1 i s1 where l: "allocBuf_loop ops 0 s = (r1, i, s1)" by (metis prod_cases3)
  show thesis
  proof (cases r1)
    case (Inl e)
    with l assms show ?thesis by (intro thrown [of e i]) (simp_all add: allocBuf_def)
  next
    case (Inr b)
    show ?thesis
    proof (cases b)
      case True
      with l Inr assms show ?thesis by (intro found [of i s1]) (auto simp: allocBuf_def)
    next
      case False
      with l Inr have "allocBuf_loop ops 0 s = (Inr False, i, s1)" by simp
      then have nf: "\<not> i \<le> numBufs s1" by (rule allocBuf_loop_not_found)
      with l Inr False assms show ?thesis by (intro exceeded [of i]) (auto simp: allocBuf_def)
    qed
  qed
qed

lemma allocBuf_wf:
  assumes w: "BufMgr_wf s" and a: "allocBuf ops s = (r, s')"
  shows "BufMgr_wf s' \<and> numBufs s' = numBufs s"
  using a
proof (cases rule: allocBuf_cases)
  case (thrown e i)
  from allocBuf_loop_wf [OF w thrown(1)] show ?thesis .
next
  case (exceeded i)
  from allocBuf_loop_wf [OF w exceeded(1)] show ?thesis .
next
  case (found i s1)
  from allocBuf_loop_wf [OF w found(1)] have w1: "BufMgr_wf s1" "numBufs s1 = numBufs s" by simp_all
  from wf_desc_update [OF w1(1), of "BufDesc_Clear (bufDescTable s1 ! clockHand s1)" "clockHand s1"]
    w1(2) found(3)
  show ?thesis by simp
qed

lemma allocBuf_ht:
  assumes n: "map_of (hashTable s) k = None" and a: "allocBuf ops s = (r, s')"
  shows "map_of (hashTable s') k = None"
  using a
proof (cases rule: allocBuf_cases)
  case (thrown e i)
  from allocBuf_loop_ht [OF n thrown(1)] show ?thesis .
next
  case (exceeded i)
  from allocBuf_loop_ht [OF n exceeded(1)] show ?thesis .
next
  case (found i s1)
  from allocBuf_loop_ht [OF n found(1)] found(3) show ?thesis by simp
qed

lemma allocBuf_ok:
  assumes w: "BufMgr_wf s" and i: "BufMgr_inv s" and a: "allocBuf ops s = (Inr fr, s')"
  shows "BufMgr_inv s' \<and> clockHand s' = fr \<and> fr < numBufs s' \<and> \<not> valid (bufDescTable s' ! fr)"
  using a
proof (cases rule: allocBuf_cases)
  case (thrown e i)
  then show ?thesis by simp
next
  case (exceeded i)
  then show ?thesis by simp
next
  case (found j s1)
  from allocBuf_loop_wf [OF w found(1)] have w1: "BufMgr_wf s1" by simp
  then have h: "clockHand s1 < numBufs s1" "clockHand s1 < length (bufDescTable s1)"
    by (simp_all add: BufMgr_wf_def)
  from allocBuf_loop_inv [OF w i found(1)] found(3) have i': "BufMgr_inv s'" by simp
  from found(2) have fr: "clockHand s1 = fr" by simp
  have c: "clockHand s' = fr" "numBufs s' = numBufs s1" using found(3) fr by simp_all
  have "\<not> valid (bufDescTable s' ! fr)" using found(3) h(2) fr by auto
  with i' c h(1) fr show ?thesis by simp
qed

subsection \<open>readPage and allocPage\<close>

lemma readPage_hit:
  "map_of (hashTable s) (f, p) = Some fr \<Longrightarrow>
   readPage ops f p s =
     (Inr fr,
      s\<lparr>bufDescTable := (bufDescTable s)[fr := (bufDescTable s ! fr)
            \<lparr>refbit := True, pinCnt := pinCnt (bufDescTable s ! fr) + 1\<rparr>]\<rparr>)"
  by (cases "fr < length (bufDescTable s)")
     (simp_all add: readPage_def ht_lookup_def Let_def list_update_beyond)

lemma readPage_miss:
  "map_of (hashTable s) (f, p) = None \<Longrightarrow>
   readPage ops f p s =
     (case allocBuf ops s of
        (Inl e1, s1) \<Rightarrow> (Inl e1, s1)
      | (Inr frameNum, s1) \<Rightarrow>
          (case call_readPage ops f p s1 of
             (Inl e2, s2) \<Rightarrow> (Inl e2, s2)
           | (Inr pg, s2) \<Rightarrow>
               (case ht_insert (hashTable s2) (f, p) frameNum of
                  Inl e3 \<Rightarrow> (Inl e3, s2\<lparr>bufPool := (bufPool s2)[frameNum := pg]\<rparr>)
                | Inr ht' \<Rightarrow>
                    (Inr frameNum,
                     s2\<lparr>bufPool := (bufPool s2)[frameNum := pg],
                        hashTable := ht',
                        bufDescTable :=
                          (bufDescTable s2)[frameNum :=
                             BufDesc_Set (bufDescTable s2 ! frameNum) f p]\<rparr>))))"
  by (simp add: readPage_def ht_lookup_def Let_def split: prod.splits sum.splits)

lemma readPage_miss_ok:
  assumes "map_of (hashTable s) (f, p) = None" "readPage ops f p s = (Inr fr, s')"
  obtains s1 pg s2 where "allocBuf ops s = (Inr fr, s1)"
    "call_readPage ops f p s1 = (Inr pg, s2)"
    "map_of (hashTable s2) (f, p) = None"
    "s' = s2\<lparr>bufPool := (bufPool s2)[fr := pg],
             hashTable := ((f, p), fr) # hashTable s2,
             bufDescTable := (bufDescTable s2)[fr := BufDesc_Set (bufDescTable s2 ! fr) f p]\<rparr>"
  using assms(2) unfolding readPage_miss [OF assms(1)]
  by (auto split: prod.splits sum.splits dest!: ht_insert_Inr)


lemma inv_admit:
  assumes w: "BufMgr_wf s" and i: "BufMgr_inv s"
    and fr: "fr < numBufs s" "\<not> valid (bufDescTable s ! fr)"
    and fresh: "map_of (hashTable s) (f, p) = None"
  shows "BufMgr_inv (s\<lparr>bufPool := bp, hashTable := ((f, p), fr) # hashTable s,
           bufDescTable := (bufDescTable s)[fr := BufDesc_Set (bufDescTable s ! fr) f p]\<rparr>)"
proof -
  have l: "fr < length (bufDescTable s)" using w fr by (simp add: BufMgr_wf_def)
  have "pt_ok (numBufs s) ((bufDescTable s)[fr := BufDesc_Set (bufDescTable s ! fr) f p])
          (((f, p), fr) # hashTable s)"
    by (rule pt_ok_insert [OF _ fr(1) l fr(2) _ _ fresh])
       (use i in \<open>simp_all add: BufMgr_inv_def\<close>)
  then show ?thesis by (simp add: BufMgr_inv_def)
qed

lemma wf_admit:
  assumes w: "BufMgr_wf s"
  shows "BufMgr_wf (s\<lparr>bufPool := (bufPool s)[fr := pg], hashTable := ht,
           bufDescTable := (bufDescTable s)[fr := BufDesc_Set (bufDescTable s ! fr) f p]\<rparr>)"
  using wf_desc_update [OF w, of "BufDesc_Set (bufDescTable s ! fr) f p" fr]
  by (simp add: BufMgr_wf_def)

lemma inv_pin_update:
  assumes i: "BufMgr_inv s"
    and same: "valid d' = valid (bufDescTable s ! fr)" "desc_key d' = desc_key (bufDescTable s ! fr)"
  shows "BufMgr_inv (s\<lparr>bufDescTable := (bufDescTable s)[fr := d']\<rparr>)"
  using i unfolding BufMgr_inv_def
  by (simp, rule pt_ok_cong [where descs = "bufDescTable s"])
     (use same in \<open>auto simp: nth_list_update_full\<close>)

lemma readPage_preserves:
  assumes w: "BufMgr_wf s" and i: "BufMgr_inv s" and r: "readPage ops f p s = (Inr fr, s')"
  shows "BufMgr_wf s' \<and> BufMgr_inv s'"
proof (cases "map_of (hashTable s) (f, p)")
  case (Some fr0)
  from r have s': "s' = s\<lparr>bufDescTable := (bufDescTable s)[fr0 := (bufDescTable s ! fr0)
            \<lparr>refbit := True, pinCnt := pinCnt (bufDescTable s ! fr0) + 1\<rparr>]\<rparr>"
    unfolding readPage_hit [OF Some] by auto
  have "BufMgr_wf s'" unfolding s' using w by (rule wf_desc_update) simp
  moreover have "BufMgr_inv s'" unfolding s' using i by (rule inv_pin_update) (simp_all add: desc_key_def)
  ultimately show ?thesis by simp
next
  case None
  from None r obtain s1 pg s2 where a: "allocBuf ops s = (Inr fr, s1)"
    and c: "call_readPage ops f p s1 = (Inr pg, s2)"
    and n2: "map_of (hashTable s2) (f, p) = None"
    and s': "s' = s2\<lparr>bufPool := (bufPool s2)[fr := pg],
             hashTable := ((f, p), fr) # hashTable s2,
             bufDescTable := (bufDescTable s2)[fr := BufDesc_Set (bufDescTable s2 ! fr) f p]\<rparr>"
    by (rule readPage_miss_ok)
  from allocBuf_wf [OF w a] have w1: "BufMgr_wf s1" by simp
  from allocBuf_ok [OF w i a] have i1: "BufMgr_inv s1" "fr < numBufs s1" "\<not> valid (bufDescTable s1 ! fr)"
    by simp_all
  from call_readPage_fields [OF c] obtain dk cl where s2: "s2 = s1\<lparr>disk := dk, calls := cl\<rparr>"
    by blast
  have w2: "BufMgr_wf s2" and i2: "BufMgr_inv s2" "fr < numBufs s2" "\<not> valid (bufDescTable s2 ! fr)"
    using w1 i1 by (simp_all add: s2)
  have "BufMgr_wf s'" unfolding s' by (rule wf_admit [OF w2])
  moreover have "BufMgr_inv s'" unfolding s' by (rule inv_admit [OF w2 i2 n2])
  ultimately show ?thesis by simp
qed


lemma allocPage_eq:
  "allocPage ops f s =
     (case allocBuf ops s of
        (Inl e1, s1) \<Rightarrow> (Inl e1, s1)
      | (Inr frameNum, s1) \<Rightarrow>
          (case call_allocatePage ops f s1 of
             (Inl e2, s2) \<Rightarrow> (Inl e2, s2)
           | (Inr pg, s2) \<Rightarrow>
               (case ht_insert (hashTable s2)
                       (f, page_number ((bufPool s2)[frameNum := pg] ! frameNum)) frameNum of
                  Inl e3 \<Rightarrow> (Inl e3, s2\<lparr>bufPool := (bufPool s2)[frameNum := pg]\<rparr>)
                | Inr ht' \<Rightarrow>
                    (Inr (page_number ((bufPool s2)[frameNum := pg] ! frameNum), frameNum),
                     s2\<lparr>bufPool := (bufPool s2)[frameNum := pg],
                        hashTable := ht',
                        bufDescTable :=
                          (bufDescTable s2)[frameNum :=
                             BufDesc_Set (bufDescTable s2 ! frameNum) f
                               (page_number ((bufPool s2)[frameNum := pg] ! frameNum))]\<rparr>))))"
  by (simp add: allocPage_def Let_def split: prod.splits sum.splits)

lemma allocPage_ok:
  assumes "allocPage ops f s = (Inr (p, fr), s')"
  obtains s1 pg s2 where "allocBuf ops s = (Inr fr, s1)"
    "call_allocatePage ops f s1 = (Inr pg, s2)"
    "p = page_number ((bufPool s2)[fr := pg] ! fr)"
    "map_of (hashTable s2) (f, p) = None"
    "s' = s2\<lparr>bufPool := (bufPool s2)[fr := pg],
             hashTable := ((f, p), fr) # hashTable s2,
             bufDescTable := (bufDescTable s2)[fr := BufDesc_Set (bufDescTable s2 ! fr) f p]\<rparr>"
  using assms unfolding allocPage_eq
  by (auto split: prod.splits sum.splits dest!: ht_insert_Inr)

lemma allocPage_preserves:
  assumes w: "BufMgr_wf s" and i: "BufMgr_inv s" and r: "allocPage ops f s = (Inr (p, fr), s')"
  shows "BufMgr_wf s' \<and> BufMgr_inv s'"
proof -
  from r obtain s1 pg s2 where a: "allocBuf ops s = (Inr fr, s1)"
    and c: "call_allocatePage ops f s1 = (Inr pg, s2)"
    and n2: "map_of (hashTable s2) (f, p) = None"
    and s': "s' = s2\<lparr>bufPool := (bufPool s2)[fr := pg],
             hashTable := ((f, p), fr) # hashTable s2,
             bufDescTable := (bufDescTable s2)[fr := BufDesc_Set (bufDescTable s2 ! fr) f p]\<rparr>"
    by (rule allocPage_ok)
  from allocBuf_wf [OF w a] have w1: "BufMgr_wf s1" by simp
  from allocBuf_ok [OF w i a] have i1: "BufMgr_inv s1" "fr < numBufs s1" "\<not> valid (bufDescTable s1 ! fr)"
    by simp_all
  from call_allocatePage_fields [OF c] obtain dk cl where s2: "s2 = s1\<lparr>disk := dk, calls := cl\<rparr>"
    by blast
  have w2: "BufMgr_wf s2" and i2: "BufMgr_inv s2" "fr < numBufs s2" "\<not> valid (bufDescTable s2 ! fr)"
    using w1 i1 by (simp_all add: s2)
  have "BufMgr_wf s'" unfolding s' by (rule wf_admit [OF w2])
  moreover have "BufMgr_inv s'" unfolding s' by (rule inv_admit [OF w2 i2 n2])
  ultimately show ?thesis by simp
qed

subsection \<open>unPinPage, disposePage and flushFile\<close>

lemma unPinPage_preserves:
  assumes w: "BufMgr_wf s" and i: "BufMgr_inv s" and r: "unPinPage f p dflag s = (Inr u, s')"
  shows "BufMgr_wf s' \<and> BufMgr_inv s'"
proof (cases "map_of (hashTable s) (f, p)")
  case None
  then have "ht_lookup (hashTable s) (f, p) = Inl HashNotFoundException"
    by (simp add: ht_lookup_def)
  from unPinPage_absent [OF this, of dflag] r w i show ?thesis by simp
next
  case (Some fr)
  then have l: "ht_lookup (hashTable s) (f, p) = Inr fr" by (simp add: ht_lookup_def)
  from inv_lookup [OF i Some] w have fr: "fr < length (bufDescTable s)"
    by (simp add: BufMgr_wf_def)
  show ?thesis
  proof (cases "pinCnt (bufDescTable s ! fr) = 0")
    case True
    from unPinPage_not_pinned [OF l True, of dflag] r show ?thesis by simp
  next
    case False
    from unPinPage_pinned [OF l False fr, of dflag] r
    have s': "s' = s\<lparr>bufDescTable := (bufDescTable s)[fr := (bufDescTable s ! fr)
               \<lparr>pinCnt := pinCnt (bufDescTable s ! fr) - 1,
                dirty := dirty (bufDescTable s ! fr) \<or> dflag\<rparr>]\<rparr>" by simp
    have "BufMgr_wf s'" unfolding s' using w by (rule wf_desc_update) simp
    moreover have "BufMgr_inv s'" unfolding s' using i
      by (rule inv_pin_update) (simp_all add: desc_key_def)
    ultimately show ?thesis by simp
  qed
qed

lemma inv_evict_clear:
  assumes w: "BufMgr_wf s" and i: "BufMgr_inv s"
    and fr: "fr < numBufs s" "valid (bufDescTable s ! fr)"
    and k: "k = desc_key (bufDescTable s ! fr)"
    and d': "\<not> valid d'"
  shows "BufMgr_inv (s\<lparr>bufDescTable := (bufDescTable s)[fr := d'],
                       hashTable := filter (\<lambda>e. fst e \<noteq> k) (hashTable s)\<rparr>)"
proof -
  have l: "fr < length (bufDescTable s)" using w fr by (simp add: BufMgr_wf_def)
  have "pt_ok (numBufs s) ((bufDescTable s)[fr := d'])
          (filter (\<lambda>e. fst e \<noteq> desc_key (bufDescTable s ! fr)) (hashTable s))"
    by (rule pt_ok_remove [OF _ fr(1) l fr(2) d']) (use i in \<open>simp add: BufMgr_inv_def\<close>)
  then show ?thesis by (simp add: BufMgr_inv_def k)
qed

lemma disposePage_absent:
  "map_of (hashTable s) (f, p) = None \<Longrightarrow> disposePage ops f p s = call_deletePage ops f p s"
  by (simp add: disposePage_def ht_lookup_def)

lemma disposePage_clean:
  "map_of (hashTable s) (f, p) = Some fr \<Longrightarrow> \<not> dirty (bufDescTable s ! fr) \<Longrightarrow>
   disposePage ops f p s =
     call_deletePage ops f p
       (s\<lparr>bufDescTable := (bufDescTable s)[fr := BufDesc_Clear (bufDescTable s ! fr)],
          hashTable := filter (\<lambda>e. fst e \<noteq> (f, p)) (hashTable s)\<rparr>)"
  by (simp add: disposePage_def ht_lookup_def ht_remove_def Let_def)

lemma disposePage_dirty_fail:
  "map_of (hashTable s) (f, p) = Some fr \<Longrightarrow> dirty (bufDescTable s ! fr) \<Longrightarrow>
   call_writePage ops f (bufPool s ! fr)
     (s\<lparr>bufDescTable := (bufDescTable s)[fr := (bufDescTable s ! fr)\<lparr>dirty := False\<rparr>]\<rparr>) =
     (Inl e, s1) \<Longrightarrow>
   disposePage ops f p s = (Inl e, s1)"
  by (simp add: disposePage_def ht_lookup_def)

lemma disposePage_dirty_ok:
  assumes m: "map_of (hashTable s) (f, p) = Some fr" and d: "dirty (bufDescTable s ! fr)"
    and c: "call_writePage ops f (bufPool s ! fr)
     (s\<lparr>bufDescTable := (bufDescTable s)[fr := (bufDescTable s ! fr)\<lparr>dirty := False\<rparr>]\<rparr>) =
     (Inr u, s1)"
  shows "disposePage ops f p s =
     call_deletePage ops f p
       (s1\<lparr>bufDescTable := (bufDescTable s1)[fr := BufDesc_Clear (bufDescTable s1 ! fr)],
           hashTable := filter (\<lambda>e. fst e \<noteq> (f, p)) (hashTable s1)\<rparr>)"
proof -
  from call_writePage_fields [OF c] have "hashTable s1 = hashTable s"
    by (metis (no_types, lifting) BufMgr.select_convs BufMgr.surjective BufMgr.update_convs)
  with m have "map_of (hashTable s1) (f, p) = Some fr" by simp
  with m d c show ?thesis
    by (simp add: disposePage_def ht_lookup_def ht_remove_def Let_def)
qed


lemma disposePage_preserves:
  assumes w: "BufMgr_wf s" and i: "BufMgr_inv s" and r: "disposePage ops f p s = (Inr u, s')"
  shows "BufMgr_wf s' \<and> BufMgr_inv s'"
proof (cases "map_of (hashTable s) (f, p)")
  case None
  from r have "call_deletePage ops f p s = (Inr u, s')" unfolding disposePage_absent [OF None] .
  from call_deletePage_fields [OF this] obtain dk cl where "s' = s\<lparr>disk := dk, calls := cl\<rparr>"
    by blast
  with w i show ?thesis by simp
next
  case (Some fr)
  from inv_lookup [OF i Some] have fr: "fr < numBufs s" "valid (bufDescTable s ! fr)"
    "desc_key (bufDescTable s ! fr) = (f, p)" by simp_all
  show ?thesis
  proof (cases "dirty (bufDescTable s ! fr)")
    case False
    let ?s2 = "s\<lparr>bufDescTable := (bufDescTable s)[fr := BufDesc_Clear (bufDescTable s ! fr)],
          hashTable := filter (\<lambda>e. fst e \<noteq> (f, p)) (hashTable s)\<rparr>"
    from r have "call_deletePage ops f p ?s2 = (Inr u, s')"
      unfolding disposePage_clean [OF Some False] .
    from call_deletePage_fields [OF this] obtain dk cl where s': "s' = ?s2\<lparr>disk := dk, calls := cl\<rparr>"
      by blast
    have "BufMgr_wf ?s2"
      using wf_desc_update [OF w, of "BufDesc_Clear (bufDescTable s ! fr)" fr] by simp
    moreover have "BufMgr_inv ?s2"
      by (rule inv_evict_clear [OF w i fr(1,2)]) (simp_all add: fr(3))
    ultimately show ?thesis unfolding s' by simp
  next
    case True
    let ?s0 = "s\<lparr>bufDescTable := (bufDescTable s)[fr := (bufDescTable s ! fr)\<lparr>dirty := False\<rparr>]\<rparr>"
    obtain rw s1 where c: "call_writePage ops f (bufPool s ! fr) ?s0 = (rw, s1)" by fastforce
    show ?thesis
    proof (cases rw)
      case (Inl e)
      from disposePage_dirty_fail [OF Some True c [unfolded Inl]] r show ?thesis by simp
    next
      case (Inr u1)
      have w0: "BufMgr_wf ?s0" using w by (rule wf_desc_update) simp
      have i0: "BufMgr_inv ?s0" using i by (rule inv_pin_update) (simp_all add: desc_key_def)
      from call_writePage_fields [OF c] obtain dk cl where s1: "s1 = ?s0\<lparr>disk := dk, calls := cl\<rparr>"
        by blast
      have w1: "BufMgr_wf s1" and i1: "BufMgr_inv s1" using w0 i0 by (simp_all add: s1)
      have l: "fr < length (bufDescTable s)" using w fr(1) by (simp add: BufMgr_wf_def)
      have fr1: "fr < numBufs s1" "valid (bufDescTable s1 ! fr)"
        "desc_key (bufDescTable s1 ! fr) = (f, p)"
        using fr l by (simp_all add: s1 desc_key_def)
      let ?s2 = "s1\<lparr>bufDescTable := (bufDescTable s1)[fr := BufDesc_Clear (bufDescTable s1 ! fr)],
           hashTable := filter (\<lambda>e. fst e \<noteq> (f, p)) (hashTable s1)\<rparr>"
      from r have "call_deletePage ops f p ?s2 = (Inr u, s')"
        unfolding disposePage_dirty_ok [OF Some True c [unfolded Inr]] .
      from call_deletePage_fields [OF this] obtain dk' cl' where
        s': "s' = ?s2\<lparr>disk := dk', calls := cl'\<rparr>" by blast
      have "BufMgr_wf ?s2"
        using wf_desc_update [OF w1, of "BufDesc_Clear (bufDescTable s1 ! fr)" fr] by simp
      moreover have "BufMgr_inv ?s2"
        by (rule inv_evict_clear [OF w1 i1 fr1(1,2)]) (simp_all add: fr1(3))
      ultimately show ?thesis unfolding s' by simp
    qed
  qed
qed


lemma Clear_dirty_False [simp]: "BufDesc_Clear (d\<lparr>dirty := False\<rparr>) = BufDesc_Clear d"
  by (simp add: BufDesc_Clear_def)

lemma flushFile_frame_skip:
  "file_p (bufDescTable s ! i) \<noteq> f \<Longrightarrow> flushFile_frame ops f i s = (Inr (), s)"
  by (simp add: flushFile_frame_def Let_def)

lemma flushFile_frame_bad:
  "file_p (bufDescTable s ! i) = f \<Longrightarrow> \<not> valid (bufDescTable s ! i) \<Longrightarrow>
   flushFile_frame ops f i s =
     (Inl (BadBufferException (frameNo (bufDescTable s ! i)) (dirty (bufDescTable s ! i))
             False (refbit (bufDescTable s ! i))), s)"
  by (simp add: flushFile_frame_def Let_def)

lemma flushFile_frame_pinned:
  "file_p (bufDescTable s ! i) = f \<Longrightarrow> valid (bufDescTable s ! i) \<Longrightarrow>
   pinCnt (bufDescTable s ! i) \<noteq> 0 \<Longrightarrow>
   flushFile_frame ops f i s =
     (Inl (PagePinnedException f (pageNo (bufDescTable s ! i)) (frameNo (bufDescTable s ! i))), s)"
  by (simp add: flushFile_frame_def Let_def)

lemma flushFile_frame_clean:
  "file_p (bufDescTable s ! i) = f \<Longrightarrow> valid (bufDescTable s ! i) \<Longrightarrow>
   pinCnt (bufDescTable s ! i) = 0 \<Longrightarrow> \<not> dirty (bufDescTable s ! i) \<Longrightarrow>
   flushFile_frame ops f i s =
     (case ht_remove (hashTable s) (f, pageNo (bufDescTable s ! i)) of
        Inl e \<Rightarrow> (Inl e, s)
      | Inr ht' \<Rightarrow>
          (Inr (), s\<lparr>bufDescTable := (bufDescTable s)[i := BufDesc_Clear (bufDescTable s ! i)],
                     hashTable := ht'\<rparr>))"
  by (simp add: flushFile_frame_def Let_def split: sum.splits)

lemma flushFile_frame_dirty_fail:
  "file_p (bufDescTable s ! i) = f \<Longrightarrow> valid (bufDescTable s ! i) \<Longrightarrow>
   pinCnt (bufDescTable s ! i) = 0 \<Longrightarrow> dirty (bufDescTable s ! i) \<Longrightarrow>
   call_writePage ops f (bufPool s ! frameNo (bufDescTable s ! i)) s = (Inl e, s1) \<Longrightarrow>
   flushFile_frame ops f i s = (Inl e, s1)"
  by (simp add: flushFile_frame_def Let_def)

lemma flushFile_frame_dirty_ok:
  assumes "file_p (bufDescTable s ! i) = f" "valid (bufDescTable s ! i)"
    "pinCnt (bufDescTable s ! i) = 0" "dirty (bufDescTable s ! i)"
    and c: "call_writePage ops f (bufPool s ! frameNo (bufDescTable s ! i)) s = (Inr u, s1)"
    and l: "i < length (bufDescTable s)"
  shows "flushFile_frame ops f i s =
     (case ht_remove (hashTable s) (f, pageNo (bufDescTable s ! i)) of
        Inl e \<Rightarrow>
          (Inl e, s1\<lparr>bufDescTable := (bufDescTable s)[i := (bufDescTable s ! i)\<lparr>dirty := False\<rparr>]\<rparr>)
      | Inr ht' \<Rightarrow>
          (Inr (), s1\<lparr>bufDescTable := (bufDescTable s)[i := BufDesc_Clear (bufDescTable s ! i)],
                      hashTable := ht'\<rparr>))"
proof -
  from call_writePage_fields [OF c] obtain dk cl where s1: "s1 = s\<lparr>disk := dk, calls := cl\<rparr>"
    by blast
  have "bufDescTable s1 = bufDescTable s" "hashTable s1 = hashTable s" by (simp_all add: s1)
  with assms show ?thesis
    by (simp add: flushFile_frame_def Let_def split: sum.splits)
qed

lemma flushFile_frame_preserves:
  assumes w: "BufMgr_wf s" and i: "BufMgr_inv s" and lt: "i < numBufs s"
    and r: "flushFile_frame ops f i s = (r, s')"
  shows "BufMgr_wf s' \<and> BufMgr_inv s'"
proof -
  let ?d = "bufDescTable s ! i"
  have l: "i < length (bufDescTable s)" using w lt by (simp add: BufMgr_wf_def)
  consider (skip) "file_p ?d \<noteq> f" | (bad) "file_p ?d = f" "\<not> valid ?d"
    | (pinned) "file_p ?d = f" "valid ?d" "pinCnt ?d \<noteq> 0"
    | (clean) "file_p ?d = f" "valid ?d" "pinCnt ?d = 0" "\<not> dirty ?d"
    | (dirty) "file_p ?d = f" "valid ?d" "pinCnt ?d = 0" "dirty ?d"
    by blast
  then show ?thesis
  proof cases
    case skip
    from r w i show ?thesis unfolding flushFile_frame_skip [OF skip] by simp
  next
    case bad
    from r w i show ?thesis unfolding flushFile_frame_bad [OF bad] by simp
  next
    case pinned
    from r w i show ?thesis unfolding flushFile_frame_pinned [OF pinned] by simp
  next
    case clean
    have k: "desc_key ?d = (f, pageNo ?d)" using clean(1) by (simp add: desc_key_def)
    from inv_valid_lookup [OF i lt clean(2)] k
    have rm: "ht_remove (hashTable s) (f, pageNo ?d) =
                Inr (filter (\<lambda>e. fst e \<noteq> (f, pageNo ?d)) (hashTable s))"
      by (simp add: ht_remove_def)
    let ?s2 = "s\<lparr>bufDescTable := (bufDescTable s)[i := BufDesc_Clear ?d],
                 hashTable := filter (\<lambda>e. fst e \<noteq> (f, pageNo ?d)) (hashTable s)\<rparr>"
    from r have s': "s' = ?s2" unfolding flushFile_frame_clean [OF clean] rm by simp
    have "BufMgr_wf ?s2" using wf_desc_update [OF w, of "BufDesc_Clear ?d" i] by simp
    moreover have "BufMgr_inv ?s2"
      by (rule inv_evict_clear [OF w i lt clean(2)]) (simp_all add: k)
    ultimately show ?thesis unfolding s' by simp
  next
    case dirty
    obtain rw s1 where c: "call_writePage ops f (bufPool s ! frameNo ?d) s = (rw, s1)"
      by fastforce
    from call_writePage_fields [OF c] obtain dk cl where s1: "s1 = s\<lparr>disk := dk, calls := cl\<rparr>"
      by blast
    show ?thesis
    proof (cases rw)
      case (Inl e)
      from r have "s' = s1" unfolding flushFile_frame_dirty_fail [OF dirty c [unfolded Inl]] by simp
      with w i show ?thesis by (simp add: s1)
    next
      case (Inr u)
      have k: "desc_key ?d = (f, pageNo ?d)" using dirty(1) by (simp add: desc_key_def)
      from inv_valid_lookup [OF i lt dirty(2)] k
      have rm: "ht_remove (hashTable s) (f, pageNo ?d) =
                Inr (filter (\<lambda>e. fst e \<noteq> (f, pageNo ?d)) (hashTable s))"
        by (simp add: ht_remove_def)
      let ?s2 = "s\<lparr>bufDescTable := (bufDescTable s)[i := BufDesc_Clear ?d],
                 hashTable := filter (\<lambda>e. fst e \<noteq> (f, pageNo ?d)) (hashTable s)\<rparr>"
      from r have s': "s' = ?s2\<lparr>disk := dk, calls := cl\<rparr>"
        unfolding flushFile_frame_dirty_ok [OF dirty c [unfolded Inr] l] rm by (auto simp: s1)
      have "BufMgr_wf ?s2" using wf_desc_update [OF w, of "BufDesc_Clear ?d" i] by simp
      moreover have "BufMgr_inv ?s2"
        by (rule inv_evict_clear [OF w i lt dirty(2)]) (simp_all add: k)
      ultimately show ?thesis unfolding s' by simp
    qed
  qed
qed

declare flushFile_loop.simps [simp del]

lemma flushFile_loop_preserves:
  "BufMgr_wf s \<Longrightarrow> BufMgr_inv s \<Longrightarrow> flushFile_loop ops f i s = (r, s') \<Longrightarrow>
     BufMgr_wf s' \<and> BufMgr_inv s'"
proof (induction "numBufs s - i" arbitrary: i s rule: less_induct)
  case less
  show ?case
  proof (cases "i < numBufs s")
    case False
    with less.prems show ?thesis by (simp add: flushFile_loop.simps [of ops f i s])
  next
    case True
    obtain r1 s1 where fr: "flushFile_frame ops f i s = (r1, s1)" by fastforce
    from flushFile_frame_preserves [OF less.prems(1,2) True fr]
    have p1: "BufMgr_wf s1" "BufMgr_inv s1" by simp_all
    have n1: "numBufs s1 = numBufs s" using flushFile_frame_numBufs [of ops f i s] fr by simp
    show ?thesis
    proof (cases r1)
      case (Inl e)
      with less.prems(3) True fr p1 show ?thesis
        by (simp add: flushFile_loop.simps [of ops f i s])
    next
      case (Inr u)
      with less.prems(3) True fr have "flushFile_loop ops f (i + 1) s1 = (r, s')"
        by (simp add: flushFile_loop.simps [of ops f i s])
      moreover have "numBufs s1 - (i + 1) < numBufs s - i" using True n1 by simp
      ultimately show ?thesis using less.hyps p1 by blast
    qed
  qed
qed

lemma flushFile_preserves:
  "BufMgr_wf s \<Longrightarrow> BufMgr_inv s \<Longrightarrow> flushFile ops f s = (r, s') \<Longrightarrow>
     BufMgr_wf s' \<and> BufMgr_inv s'"
  unfolding flushFile_def by (rule flushFile_loop_preserves)

section \<open>Evaluating the model on concrete pools\<close>

text \<open>Unfolding the definitions evaluates the model on a concrete pool.\<close>

lemmas eval_defs =
  ex_pool2_def ex_desc_def mem_ops_def bad_ops_def
  readPage_def allocPage_def disposePage_def flushFile_def flushFile_loop.simps
  flushFile_frame_def unPinPage_def allocBuf_def allocBuf_loop.simps allocBuf_evict_def
  advanceClock_def ht_lookup_def ht_insert_def ht_remove_def call_readPage_def
  call_writePage_def call_allocatePage_def call_deletePage_def BufDesc_Clear_def
  BufDesc_Set_def Let_def

lemmas eval_inv_defs =
  BufMgr_wf_def BufMgr_inv_def pt_ok_def entries_of_def desc_key_def
  atLeastLessThan_upt upt_rec

lemmas eval_new_defs =
  BufMgr_new_def BufDesc_new_def Page_new_def NULL_def INVALID_NUMBER_def upt_rec

section \<open>Claim C4: the invariant of the page table\<close>

subsection \<open>The constructor\<close>

lemma BufMgr_new_wf:
  "0 < bufs \<Longrightarrow> bufs < 2 ^ 32 - 1 \<Longrightarrow> BufMgr_wf (BufMgr_new bufs d)"
  by (simp add: BufMgr_wf_def BufMgr_new_def mod_if o_def)

lemma BufMgr_new_inv: "BufMgr_inv (BufMgr_new bufs d)"
  by (simp add: BufMgr_inv_def BufMgr_new_def pt_ok_def entries_of_def BufDesc_new_def)

lemma not_isl_Inr: "\<not> isl r \<Longrightarrow> \<exists>x. r = Inr x"
  by (cases r) simp_all

text \<open>
  The inductive step. The page table and the descriptors agree (\<open>BufMgr_inv\<close>: the
  descriptor of frame \<open>f\<close> is valid exactly when the entries of the table that map to \<open>f\<close>
  are the one entry \<open>(file(f), pageNo(f))\<close>, a frame that is not valid has no entry, and
  no key occurs twice) in the state the constructor builds, and each of \<open>readPage\<close>,
  \<open>allocPage\<close>, \<open>unPinPage\<close>, \<open>flushFile\<close> and \<open>disposePage\<close>, when it returns normally from
  a well-formed state in which they agree, leaves a well-formed state in which they agree
  again. This does not make the agreement hold after every operation that returns
  normally: an operation that throws may leave a state in which they disagree, and the
  operations after it start from that state.
\<close>

theorem page_table_invariant:
  "(0 < bufs \<and> bufs < 2 ^ 32 - 1 \<longrightarrow>
      BufMgr_wf (BufMgr_new bufs d) \<and> BufMgr_inv (BufMgr_new bufs d)) \<and>
   (BufMgr_wf s \<and> BufMgr_inv s \<longrightarrow>
      (\<not> isl (fst (readPage ops f p s)) \<longrightarrow>
         BufMgr_wf (snd (readPage ops f p s)) \<and> BufMgr_inv (snd (readPage ops f p s))) \<and>
      (\<not> isl (fst (allocPage ops f s)) \<longrightarrow>
         BufMgr_wf (snd (allocPage ops f s)) \<and> BufMgr_inv (snd (allocPage ops f s))) \<and>
      (\<not> isl (fst (unPinPage f p dflag s)) \<longrightarrow>
         BufMgr_wf (snd (unPinPage f p dflag s)) \<and> BufMgr_inv (snd (unPinPage f p dflag s))) \<and>
      (\<not> isl (fst (flushFile ops f s)) \<longrightarrow>
         BufMgr_wf (snd (flushFile ops f s)) \<and> BufMgr_inv (snd (flushFile ops f s))) \<and>
      (\<not> isl (fst (disposePage ops f p s)) \<longrightarrow>
         BufMgr_wf (snd (disposePage ops f p s)) \<and> BufMgr_inv (snd (disposePage ops f p s))))"
proof (intro conjI impI)
  assume "0 < bufs \<and> bufs < 2 ^ 32 - 1"
  then show "BufMgr_wf (BufMgr_new bufs d)" using BufMgr_new_wf [of bufs d] by simp
next
  show "BufMgr_inv (BufMgr_new bufs d)" by (rule BufMgr_new_inv)
next
  assume "BufMgr_wf s \<and> BufMgr_inv s"
  then have assms: "BufMgr_wf s" "BufMgr_inv s" by simp_all
  assume "\<not> isl (fst (readPage ops f p s))"
  then obtain fr where "readPage ops f p s = (Inr fr, snd (readPage ops f p s))"
    by (metis not_isl_Inr prod.collapse)
  from readPage_preserves [OF assms this]
  show "BufMgr_wf (snd (readPage ops f p s))" "BufMgr_inv (snd (readPage ops f p s))" by simp_all
next
  assume "BufMgr_wf s \<and> BufMgr_inv s"
  then have assms: "BufMgr_wf s" "BufMgr_inv s" by simp_all
  assume "\<not> isl (fst (allocPage ops f s))"
  then obtain q fr where "allocPage ops f s = (Inr (q, fr), snd (allocPage ops f s))"
    by (metis not_isl_Inr prod.collapse)
  from allocPage_preserves [OF assms this]
  show "BufMgr_wf (snd (allocPage ops f s))" "BufMgr_inv (snd (allocPage ops f s))" by simp_all
next
  assume "BufMgr_wf s \<and> BufMgr_inv s"
  then have assms: "BufMgr_wf s" "BufMgr_inv s" by simp_all
  assume "\<not> isl (fst (unPinPage f p dflag s))"
  then obtain u where "unPinPage f p dflag s = (Inr u, snd (unPinPage f p dflag s))"
    by (metis not_isl_Inr prod.collapse)
  from unPinPage_preserves [OF assms this]
  show "BufMgr_wf (snd (unPinPage f p dflag s))" "BufMgr_inv (snd (unPinPage f p dflag s))"
    by simp_all
next
  assume "BufMgr_wf s \<and> BufMgr_inv s"
  then have assms: "BufMgr_wf s" "BufMgr_inv s" by simp_all
  have "flushFile ops f s = (fst (flushFile ops f s), snd (flushFile ops f s))" by simp
  from flushFile_preserves [OF assms this]
  show "BufMgr_wf (snd (flushFile ops f s))" "BufMgr_inv (snd (flushFile ops f s))" by simp_all
next
  assume "BufMgr_wf s \<and> BufMgr_inv s"
  then have assms: "BufMgr_wf s" "BufMgr_inv s" by simp_all
  assume "\<not> isl (fst (disposePage ops f p s))"
  then obtain u where "disposePage ops f p s = (Inr u, snd (disposePage ops f p s))"
    by (metis not_isl_Inr prod.collapse)
  from disposePage_preserves [OF assms this]
  show "BufMgr_wf (snd (disposePage ops f p s))" "BufMgr_inv (snd (disposePage ops f p s))"
    by simp_all
qed

theorem page_table_invariant_witness:
  "BufMgr_inv (BufMgr_new 2 (0::nat)) \<and> BufMgr_wf (BufMgr_new 2 (0::nat)) \<and>
   BufMgr_inv (snd (readPage mem_ops 7 3
      (ex_pool2 (ex_desc 7 1 0 0 True False) (ex_desc 7 2 1 0 False True)))) \<and>
   BufMgr_inv (snd (allocPage mem_ops 7
      (ex_pool2 (ex_desc 7 1 0 0 True False) (ex_desc 7 2 1 0 False True)))) \<and>
   BufMgr_inv (snd (unPinPage 7 3 True
      (ex_pool2 (ex_desc 7 1 0 0 True False) (ex_desc 7 2 1 0 False True)))) \<and>
   BufMgr_inv (snd (flushFile mem_ops 7
      (ex_pool2 (ex_desc 7 1 0 0 True False) (ex_desc 7 2 1 0 False True)))) \<and>
   BufMgr_inv (snd (disposePage mem_ops 7 1
      (ex_pool2 (ex_desc 7 1 0 0 True False) (ex_desc 7 2 1 0 False True))))"
proof -
  let ?s = "ex_pool2 (ex_desc 7 1 0 0 True False) (ex_desc 7 2 1 0 False True)"
  have w: "BufMgr_wf ?s" by (simp add: eval_inv_defs ex_pool2_def ex_desc_def)
  have i: "BufMgr_inv ?s" by (simp add: eval_inv_defs ex_pool2_def ex_desc_def)
  have 1: "\<not> isl (fst (readPage mem_ops 7 3 ?s))" by (simp add: eval_defs)
  have 2: "\<not> isl (fst (allocPage mem_ops 7 ?s))" by (simp add: eval_defs)
  have 3: "\<not> isl (fst (unPinPage 7 3 True ?s))" by (simp add: eval_defs)
  have 4: "\<not> isl (fst (flushFile mem_ops 7 ?s))" by (simp add: eval_defs)
  have 5: "\<not> isl (fst (disposePage mem_ops 7 1 ?s))" by (simp add: eval_defs)
  have b: "0 < (2::nat) \<and> (2::nat) < 2 ^ 32 - 1" by simp
  note n = page_table_invariant [THEN conjunct1, THEN mp, OF b, of "0::nat"]
  note t3 = page_table_invariant [THEN conjunct2, THEN mp, OF conjI [OF w i], of mem_ops 7 3 True]
  note t1 = page_table_invariant [THEN conjunct2, THEN mp, OF conjI [OF w i], of mem_ops 7 1 True]
  from n t3 t1 1 2 3 4 5 show ?thesis by blast
qed

subsection \<open>After a write-back that throws\<close>

lemma inv_valid_entries:
  "BufMgr_inv s \<Longrightarrow> fr < numBufs s \<Longrightarrow> valid (bufDescTable s ! fr) \<Longrightarrow>
   entries_of (hashTable s) fr = [(desc_key (bufDescTable s ! fr), fr)]"
  by (simp add: BufMgr_inv_def pt_ok_def)

lemma ex_dirty_reached:
  "BufMgr_wf ex_dirty \<and> BufMgr_inv ex_dirty \<and>
   fst (readPage wfail_ops 7 1 (BufMgr_new 1 0)) = Inr 0 \<and>
   fst (unPinPage 7 1 True (snd (readPage wfail_ops 7 1 (BufMgr_new 1 0)))) = Inr ()"
  by (simp add: ex_dirty_def wfail_ops_def eval_defs eval_new_defs eval_inv_defs)

lemma write_failure_breaks_inv:
  "BufMgr_wf (snd (readPage wfail_ops 7 2 ex_dirty)) \<and>
   \<not> BufMgr_inv (snd (readPage wfail_ops 7 2 ex_dirty)) \<and>
   \<not> BufMgr_inv (snd (unPinPage 7 1 False (snd (readPage wfail_ops 7 2 ex_dirty)))) \<and>
   \<not> BufMgr_inv (snd (disposePage wfail_ops 7 1 (snd (readPage wfail_ops 7 2 ex_dirty))))"
  by (simp add: ex_dirty_def wfail_ops_def eval_defs eval_new_defs eval_inv_defs)

text \<open>
  Claim C4 does not hold for the source. \<open>allocBuf\<close> removes the entry of a dirty victim
  before it writes the page (lines 86-90), and when the write throws the frame stays valid
  without an entry. In a pool of one frame, after \<open>readPage(7, 1)\<close> and
  \<open>unPinPage(7, 1, true)\<close> (the state \<open>ex_dirty\<close>), \<open>readPage(7, 2)\<close> on a file whose
  \<open>writePage\<close> throws ends with that exception. After it \<open>unPinPage(7, 1, false)\<close> returns
  normally, and so does \<open>disposePage(7, 1)\<close>: neither finds the page in the table. In
  the state each of them leaves, frame 0 is valid with the key \<open>(7, 1)\<close> and no entry of
  the page table maps to frame 0, where the claim asks for exactly one.
\<close>

theorem page_table_invariant_broken:
  "fst (readPage wfail_ops 7 2 ex_dirty) = Inl (FileException 2) \<and>
   fst (unPinPage 7 1 False (snd (readPage wfail_ops 7 2 ex_dirty))) = Inr () \<and>
   numBufs (snd (unPinPage 7 1 False (snd (readPage wfail_ops 7 2 ex_dirty)))) = 1 \<and>
   valid (bufDescTable
     (snd (unPinPage 7 1 False (snd (readPage wfail_ops 7 2 ex_dirty)))) ! 0) \<and>
   desc_key (bufDescTable
     (snd (unPinPage 7 1 False (snd (readPage wfail_ops 7 2 ex_dirty)))) ! 0) = (7, 1) \<and>
   entries_of (hashTable
     (snd (unPinPage 7 1 False (snd (readPage wfail_ops 7 2 ex_dirty))))) 0 = [] \<and>
   fst (disposePage wfail_ops 7 1 (snd (readPage wfail_ops 7 2 ex_dirty))) = Inr () \<and>
   valid (bufDescTable
     (snd (disposePage wfail_ops 7 1 (snd (readPage wfail_ops 7 2 ex_dirty)))) ! 0) \<and>
   desc_key (bufDescTable
     (snd (disposePage wfail_ops 7 1 (snd (readPage wfail_ops 7 2 ex_dirty)))) ! 0) = (7, 1) \<and>
   entries_of (hashTable
     (snd (disposePage wfail_ops 7 1 (snd (readPage wfail_ops 7 2 ex_dirty))))) 0 = []"
  by (simp add: ex_dirty_def wfail_ops_def eval_defs eval_new_defs entries_of_def desc_key_def)

section \<open>Claim C7: a read error on a miss\<close>

lemma allocBuf_frame:
  assumes w: "BufMgr_wf s" and a: "allocBuf ops s = (Inr fr, s')"
  shows "clockHand s' = fr \<and> fr < numBufs s' \<and> \<not> valid (bufDescTable s' ! fr)"
  using a
proof (cases rule: allocBuf_cases)
  case (thrown e i)
  then show ?thesis by simp
next
  case (exceeded i)
  then show ?thesis by simp
next
  case (found j s1)
  from allocBuf_loop_wf [OF w found(1)] have w1: "BufMgr_wf s1" by simp
  then have h: "clockHand s1 < numBufs s1" "clockHand s1 < length (bufDescTable s1)"
    by (simp_all add: BufMgr_wf_def)
  from found(2) have fr: "clockHand s1 = fr" by simp
  have c: "clockHand s' = fr" "numBufs s' = numBufs s1" using found(3) fr by simp_all
  have "\<not> valid (bufDescTable s' ! fr)" using found(3) h(2) fr by auto
  with c h(1) fr show ?thesis by simp
qed

lemma readPage_miss_read_fails:
  assumes m: "map_of (hashTable s) (f, p) = None"
    and a: "allocBuf ops s = (Inr fr, s1)"
    and r: "File_readPage ops f p (disk s1) = (Inl c, d')"
  shows "readPage ops f p s =
           (Inl (FileException c), s1\<lparr>disk := d', calls := calls s1 @ [ReadPage f p]\<rparr>)"
  using a r unfolding readPage_miss [OF m] by (simp add: call_readPage_def)

text \<open>
  Claim C7. On a miss, when the replacer has given frame \<open>fr\<close> and \<open>file->readPage\<close> throws,
  \<open>readPage\<close> throws that error; the state left behind is the one \<open>allocBuf\<close> left, plus
  the call in the log: frame \<open>fr\<close> is not valid, the page table has no entry for
  \<open>(file, pageNo)\<close>, and the table and the descriptors still agree when they did before.
\<close>

theorem readPage_read_error:
  assumes "BufMgr_wf s"
    and "ht_lookup (hashTable s) (f, p) = Inl HashNotFoundException"
    and "allocBuf ops s = (Inr fr, s1)"
    and "File_readPage ops f p (disk s1) = (Inl c, d')"
  shows "readPage ops f p s =
           (Inl (FileException c), s1\<lparr>disk := d', calls := calls s1 @ [ReadPage f p]\<rparr>) \<and>
         \<not> valid (bufDescTable (snd (readPage ops f p s)) ! fr) \<and>
         ht_lookup (hashTable (snd (readPage ops f p s))) (f, p) = Inl HashNotFoundException \<and>
         (BufMgr_inv s \<longrightarrow> BufMgr_inv (snd (readPage ops f p s)))"
proof -
  from assms(2) have m: "map_of (hashTable s) (f, p) = None" by (simp add: ht_lookup_Inl)
  note e = readPage_miss_read_fails [OF m assms(3,4)]
  from allocBuf_frame [OF assms(1,3)] have "\<not> valid (bufDescTable s1 ! fr)" by simp
  moreover from allocBuf_ht [OF m assms(3)] have "map_of (hashTable s1) (f, p) = None" .
  moreover have "BufMgr_inv s1" if "BufMgr_inv s"
    using allocBuf_ok [OF assms(1) that assms(3)] by simp
  ultimately show ?thesis unfolding e by (simp add: ht_lookup_def)
qed


theorem readPage_read_error_witness:
  "readPage bad_ops 7 3 (ex_pool2 (ex_desc 7 1 0 0 False False) (ex_desc 7 2 1 0 False True)) =
     (Inl (FileException 1),
      \<lparr>numBufs = 2,
       bufDescTable = [BufDesc_new, ex_desc 7 2 1 0 False True],
       bufPool = [\<lparr>page_number = 1, page_data = []\<rparr>, \<lparr>page_number = 2, page_data = []\<rparr>],
       hashTable = [((7, 2), 1)], clockHand = 0, disk = 10, calls = [ReadPage 7 3],
       advances = 1\<rparr>)"
proof -
  let ?s = "ex_pool2 (ex_desc 7 1 0 0 False False) (ex_desc 7 2 1 0 False True)"
  let ?s1 = "\<lparr>numBufs = 2,
       bufDescTable = [BufDesc_new, ex_desc 7 2 1 0 False True],
       bufPool = [\<lparr>page_number = 1, page_data = []\<rparr>, \<lparr>page_number = 2, page_data = []\<rparr>],
       hashTable = [((7, 2), 1)], clockHand = 0, disk = 10::nat, calls = [],
       advances = 1\<rparr>"
  have w: "BufMgr_wf ?s" by (simp add: eval_inv_defs ex_pool2_def ex_desc_def)
  have l: "ht_lookup (hashTable ?s) (7, 3) = Inl HashNotFoundException" by (simp add: eval_defs)
  have a: "allocBuf bad_ops ?s = (Inr 0, ?s1)"
    by (simp add: eval_defs BufDesc_new_def NULL_def INVALID_NUMBER_def)
  have r: "File_readPage bad_ops 7 3 (disk ?s1) = (Inl 1, 10)" by (simp add: bad_ops_def)
  from readPage_read_error [OF w l a r] show ?thesis by simp
qed

section \<open>Claims C9 and C10: disposePage\<close>

lemma call_deletePage_eq:
  "call_deletePage ops f p s =
     (case fst (File_deletePage ops f p (disk s)) of
        Inl c \<Rightarrow> Inl (FileException c) | Inr u \<Rightarrow> Inr u,
      s\<lparr>disk := snd (File_deletePage ops f p (disk s)), calls := calls s @ [DeletePage f p]\<rparr>)"
  by (simp add: call_deletePage_def split: prod.splits)

lemma call_writePage_ok:
  "\<not> isl (fst (File_writePage ops f pg (disk s))) \<Longrightarrow>
   call_writePage ops f pg s =
     (Inr (), s\<lparr>disk := snd (File_writePage ops f pg (disk s)),
               calls := calls s @ [WritePage f pg]\<rparr>)"
  by (cases "File_writePage ops f pg (disk s)")
     (auto simp: call_writePage_def split: sum.splits)

lemma disposePage_resident:
  assumes m: "map_of (hashTable s) (f, p) = Some fr"
    and wr: "dirty (bufDescTable s ! fr) \<longrightarrow>
               \<not> isl (fst (File_writePage ops f (bufPool s ! fr) (disk s)))"
  shows "disposePage ops f p s =
     (case fst (File_deletePage ops f p
                  (if dirty (bufDescTable s ! fr)
                   then snd (File_writePage ops f (bufPool s ! fr) (disk s)) else disk s)) of
        Inl c \<Rightarrow> Inl (FileException c) | Inr u \<Rightarrow> Inr u,
      s\<lparr>bufDescTable := (bufDescTable s)[fr := BufDesc_Clear (bufDescTable s ! fr)],
        hashTable := filter (\<lambda>e. fst e \<noteq> (f, p)) (hashTable s),
        disk := snd (File_deletePage ops f p
                  (if dirty (bufDescTable s ! fr)
                   then snd (File_writePage ops f (bufPool s ! fr) (disk s)) else disk s)),
        calls := calls s @
          (if dirty (bufDescTable s ! fr) then [WritePage f (bufPool s ! fr)] else []) @
          [DeletePage f p]\<rparr>)"
proof (cases "dirty (bufDescTable s ! fr)")
  case False
  then show ?thesis
    unfolding disposePage_clean [OF m False] call_deletePage_eq by simp
next
  case True
  let ?s0 = "s\<lparr>bufDescTable := (bufDescTable s)[fr := (bufDescTable s ! fr)\<lparr>dirty := False\<rparr>]\<rparr>"
  from wr True have "\<not> isl (fst (File_writePage ops f (bufPool s ! fr) (disk ?s0)))" by simp
  from call_writePage_ok [OF this]
  have c: "call_writePage ops f (bufPool s ! fr) ?s0 =
     (Inr (), ?s0\<lparr>disk := snd (File_writePage ops f (bufPool s ! fr) (disk s)),
               calls := calls s @ [WritePage f (bufPool s ! fr)]\<rparr>)" by simp
  show ?thesis
    unfolding disposePage_dirty_ok [OF m True c] call_deletePage_eq using True
    by (cases "fr < length (bufDescTable s)") (simp_all add: list_update_beyond)
qed








text \<open>
  Claim C10. \<open>disposePage\<close> never looks at \<open>pinCnt\<close>: for a page resident in a frame with
  \<open>pinCnt > 0\<close> (the calls to the file not throwing) it returns normally, has written the
  page when it was dirty, has cleared the descriptor, so that the pins are gone, has
  removed the entry from the page table and has called \<open>deletePage\<close>.
\<close>

theorem disposePage_ignores_pins:
  assumes "ht_lookup (hashTable s) (f, p) = Inr fr"
    and "fr < length (bufDescTable s)"
    and "0 < pinCnt (bufDescTable s ! fr)"
    and "dirty (bufDescTable s ! fr) \<longrightarrow>
           \<not> isl (fst (File_writePage ops f (bufPool s ! fr) (disk s)))"
    and "\<not> isl (fst (File_deletePage ops f p
                  (if dirty (bufDescTable s ! fr)
                   then snd (File_writePage ops f (bufPool s ! fr) (disk s)) else disk s)))"
  shows "fst (disposePage ops f p s) = Inr () \<and>
         bufDescTable (snd (disposePage ops f p s)) ! fr = BufDesc_Clear (bufDescTable s ! fr) \<and>
         \<not> valid (bufDescTable (snd (disposePage ops f p s)) ! fr) \<and>
         pinCnt (bufDescTable (snd (disposePage ops f p s)) ! fr) = 0 \<and>
         ht_lookup (hashTable (snd (disposePage ops f p s))) (f, p) = Inl HashNotFoundException \<and>
         calls (snd (disposePage ops f p s)) =
           calls s @ (if dirty (bufDescTable s ! fr) then [WritePage f (bufPool s ! fr)] else []) @
           [DeletePage f p]"
proof -
  from assms(1) have m: "map_of (hashTable s) (f, p) = Some fr" by (simp add: ht_lookup_Inr)
  note e = disposePage_resident [OF m assms(4)]
  from not_isl_Inr [OF assms(5)]
  have "fst (File_deletePage ops f p
                  (if dirty (bufDescTable s ! fr)
                   then snd (File_writePage ops f (bufPool s ! fr) (disk s)) else disk s)) = Inr ()"
    by simp
  then have "fst (disposePage ops f p s) = Inr ()"
    unfolding e by simp
  moreover have "bufDescTable (snd (disposePage ops f p s)) ! fr =
      BufDesc_Clear (bufDescTable s ! fr)"
    using assms(2) unfolding e by simp
  moreover have "ht_lookup (hashTable (snd (disposePage ops f p s))) (f, p) =
      Inl HashNotFoundException"
    unfolding e by (simp add: ht_lookup_def map_of_filter_key)
  moreover have "calls (snd (disposePage ops f p s)) =
           calls s @ (if dirty (bufDescTable s ! fr) then [WritePage f (bufPool s ! fr)] else []) @
           [DeletePage f p]"
    unfolding e by simp
  ultimately show ?thesis by (simp add: BufDesc_Clear_def)
qed

theorem disposePage_ignores_pins_witness:
  "disposePage mem_ops 7 1
     (ex_pool2 (ex_desc 7 1 0 3 True False) (ex_desc 7 2 1 0 False True)) =
   (Inr (),
    \<lparr>numBufs = 2,
     bufDescTable = [BufDesc_new, ex_desc 7 2 1 0 False True],
     bufPool = [\<lparr>page_number = 1, page_data = []\<rparr>, \<lparr>page_number = 2, page_data = []\<rparr>],
     hashTable = [((7, 2), 1)], clockHand = 1, disk = 10,
     calls = [WritePage 7 \<lparr>page_number = 1, page_data = []\<rparr>, DeletePage 7 1],
     advances = 0\<rparr>)"
proof -
  let ?s = "ex_pool2 (ex_desc 7 1 0 3 True False) (ex_desc 7 2 1 0 False True)"
  have 1: "ht_lookup (hashTable ?s) (7, 1) = Inr 0" by (simp add: eval_defs)
  have 2: "0 < length (bufDescTable ?s)" by (simp add: eval_defs)
  have 3: "0 < pinCnt (bufDescTable ?s ! 0)" by (simp add: eval_defs)
  have 4: "dirty (bufDescTable ?s ! 0) \<longrightarrow>
           \<not> isl (fst (File_writePage mem_ops 7 (bufPool ?s ! 0) (disk ?s)))"
    by (simp add: eval_defs)
  have 5: "\<not> isl (fst (File_deletePage mem_ops 7 1
                  (if dirty (bufDescTable ?s ! 0)
                   then snd (File_writePage mem_ops 7 (bufPool ?s ! 0) (disk ?s)) else disk ?s)))"
    by (simp add: eval_defs)
  have e: "snd (disposePage mem_ops 7 1 ?s) =
    \<lparr>numBufs = 2,
     bufDescTable = [BufDesc_new, ex_desc 7 2 1 0 False True],
     bufPool = [\<lparr>page_number = 1, page_data = []\<rparr>, \<lparr>page_number = 2, page_data = []\<rparr>],
     hashTable = [((7, 2), 1)], clockHand = 1, disk = 10,
     calls = [WritePage 7 \<lparr>page_number = 1, page_data = []\<rparr>, DeletePage 7 1],
     advances = 0\<rparr>"
    by (simp add: eval_defs BufDesc_new_def NULL_def INVALID_NUMBER_def)
  from disposePage_ignores_pins [OF 1 2 3 4 5] have "fst (disposePage mem_ops 7 1 ?s) = Inr ()"
    by simp
  with e show ?thesis by (metis prod.collapse)
qed

section \<open>Claim C8: a sweep over frames that all have the reference bit\<close>

lemma clock_dist_next:
  assumes "h < n" "j < n" and h': "h' = (if h + 1 = n then 0 else h + 1)"
  shows "clock_dist n h h' = 0"
    and "j \<noteq> h' \<Longrightarrow> clock_dist n h j = clock_dist n h' j + 1"
    and "clock_dist n h' h' = n - 1"
    and "clock_dist n h j < n"
  using assms by (auto simp: clock_dist_def split: if_splits)

lemma hand_mod:
  "h < n \<Longrightarrow> (if h + 1 = n then 0 else h + 1) = (h + 1) mod (n::nat)"
  by auto

lemma allocBuf_evict_selected:
  assumes w: "BufMgr_wf s" and i: "BufMgr_inv s" and v: "valid (bufDescTable s ! clockHand s)"
    and e: "allocBuf_evict ops s = (r, s2)"
  shows "r = Inr () \<or> (\<exists>c. r = Inl (FileException c))"
proof -
  have h: "clockHand s < numBufs s" using w by (simp add: BufMgr_wf_def)
  from inv_valid_lookup [OF i h v]
  have rm: "ht_remove (hashTable s) (desc_key (bufDescTable s ! clockHand s)) =
              Inr (filter (\<lambda>e. fst e \<noteq> desc_key (bufDescTable s ! clockHand s)) (hashTable s))"
    by (simp add: ht_remove_def)
  from e show ?thesis
  proof (cases rule: allocBuf_evict_cases)
    case (absent e)
    with rm show ?thesis by simp
  next
    case (clean ht')
    then show ?thesis by simp
  next
    case (dirty ht')
    then show ?thesis by (auto simp: call_writePage_def split: prod.splits sum.splits)
  qed
qed

lemma allocBuf_loop_sweep:
  assumes "BufMgr_wf s" "BufMgr_inv s"
    and "\<forall>j < numBufs s. valid (bufDescTable s ! j) \<and> pinCnt (bufDescTable s ! j) = 0 \<and>
           (refbit (bufDescTable s ! j) \<longleftrightarrow> clock_dist (numBufs s) (clockHand s) j < k)"
    and "i + k \<le> numBufs s"
  shows "\<exists>r s'. allocBuf_loop ops i s = (r, i + k, s') \<and>
           (r = Inr True \<or> (\<exists>c. r = Inl (FileException c))) \<and>
           advances s' = advances s + k + 1 \<and>
           clockHand s' = (clockHand s + k + 1) mod numBufs s"
  using assms
proof (induction k arbitrary: i s)
  case 0
  let ?s1 = "advanceClock s"
  let ?h1 = "clockHand ?s1"
  have w1: "BufMgr_wf ?s1" using "0.prems"(1) by (rule advanceClock_wf)
  have h: "clockHand s < numBufs s" using "0.prems"(1) by (simp add: BufMgr_wf_def)
  have h1: "?h1 < numBufs s" using w1 by (simp add: BufMgr_wf_def)
  have hm: "?h1 = (clockHand s + 1) mod numBufs s"
    using advanceClock_hand [OF "0.prems"(1)] hand_mod [OF h] by simp
  from "0.prems"(3) h1 have d: "valid (bufDescTable s ! ?h1)" "\<not> refbit (bufDescTable s ! ?h1)"
    "pinCnt (bufDescTable s ! ?h1) = 0" by simp_all
  obtain r2 s2 where e: "allocBuf_evict ops ?s1 = (r2, s2)" by fastforce
  have l: "allocBuf_loop ops i s = (case r2 of Inl e \<Rightarrow> Inl e | Inr u \<Rightarrow> Inr True, i, s2)"
    using "0.prems"(4) d e by (simp add: allocBuf_loop_evict split: sum.splits)
  from allocBuf_evict_wf [OF w1 e] have f: "clockHand s2 = ?h1" "advances s2 = advances s + 1"
    by simp_all
  from allocBuf_evict_selected [OF w1 _ _ e] "0.prems"(2) d(1)
  have "r2 = Inr () \<or> (\<exists>c. r2 = Inl (FileException c))" by simp
  with l f hm show ?case by auto
next
  case (Suc k)
  let ?s1 = "advanceClock s"
  let ?h1 = "clockHand ?s1"
  let ?s2 = "?s1\<lparr>bufDescTable := (bufDescTable s)[?h1 := (bufDescTable s ! ?h1)\<lparr>refbit := False\<rparr>]\<rparr>"
  have w1: "BufMgr_wf ?s1" using Suc.prems(1) by (rule advanceClock_wf)
  have h: "clockHand s < numBufs s" using Suc.prems(1) by (simp add: BufMgr_wf_def)
  have h1: "?h1 < numBufs s" using w1 by (simp add: BufMgr_wf_def)
  have len: "length (bufDescTable s) = numBufs s" using Suc.prems(1) by (simp add: BufMgr_wf_def)
  have hi: "?h1 = (if clockHand s + 1 = numBufs s then 0 else clockHand s + 1)"
    by (rule advanceClock_hand [OF Suc.prems(1)])
  have hm: "?h1 = (clockHand s + 1) mod numBufs s" using hi hand_mod [OF h] by simp
  note cd = clock_dist_next [OF h _ hi]
  from Suc.prems(3) h1 cd(1) [OF h1] have d: "valid (bufDescTable s ! ?h1)" "refbit (bufDescTable s ! ?h1)"
    by simp_all
  have l: "allocBuf_loop ops i s = allocBuf_loop ops (i + 1) ?s2"
    using Suc.prems(4) d by (simp add: allocBuf_loop_refbit)
  have w2: "BufMgr_wf ?s2" by (rule wf_clear_refbit [OF Suc.prems(1)])
  have i2: "BufMgr_inv ?s2" by (rule inv_clear_refbit [OF Suc.prems(2)])
  have p2: "\<forall>j < numBufs ?s2. valid (bufDescTable ?s2 ! j) \<and> pinCnt (bufDescTable ?s2 ! j) = 0 \<and>
           (refbit (bufDescTable ?s2 ! j) \<longleftrightarrow> clock_dist (numBufs ?s2) (clockHand ?s2) j < k)"
  proof (intro allI impI)
    fix j assume "j < numBufs ?s2"
    then have j: "j < numBufs s" by simp
    show "valid (bufDescTable ?s2 ! j) \<and> pinCnt (bufDescTable ?s2 ! j) = 0 \<and>
           (refbit (bufDescTable ?s2 ! j) \<longleftrightarrow> clock_dist (numBufs ?s2) (clockHand ?s2) j < k)"
    proof (cases "j = ?h1")
      case True
      have "\<not> clock_dist (numBufs s) ?h1 ?h1 < k" using cd(3) [OF h1] Suc.prems(4) by simp
      with True Suc.prems(3) j len show ?thesis by simp
    next
      case False
      from cd(2) [OF j False] have "clock_dist (numBufs s) (clockHand s) j < Suc k \<longleftrightarrow>
          clock_dist (numBufs s) ?h1 j < k" by simp
      with False Suc.prems(3) j show ?thesis by simp
    qed
  qed
  have "i + 1 + k \<le> numBufs ?s2" using Suc.prems(4) by simp
  from Suc.IH [OF w2 i2 p2 this] obtain r s' where
    r: "allocBuf_loop ops (i + 1) ?s2 = (r, i + 1 + k, s')"
      "r = Inr True \<or> (\<exists>c. r = Inl (FileException c))"
      "advances s' = advances ?s2 + k + 1"
      "clockHand s' = (clockHand ?s2 + k + 1) mod numBufs ?s2" by blast
  have "((clockHand s + 1) mod numBufs s + (k + 1)) mod numBufs s =
          (clockHand s + 1 + (k + 1)) mod numBufs s"
    by (rule mod_add_left_eq)
  then have "clockHand s' = (clockHand s + Suc k + 1) mod numBufs s"
    using r(4) hm by (simp add: add.assoc)
  with l r show ?case by simp
qed


lemma BufMgr_new_hand:
  assumes "0 < bufs" "bufs < 2 ^ 32"
  shows "clockHand (BufMgr_new bufs d) = bufs - 1"
    and "clockHand (advanceClock (BufMgr_new bufs d)) = 0"
proof -
  have "bufs + 2 ^ 32 - 1 = (bufs - 1) + (2 ^ 32 :: nat)" using assms by arith
  then have "(bufs + 2 ^ 32 - 1) mod 2 ^ 32 = (bufs - 1) mod (2 ^ 32 :: nat)"
    by (metis mod_add_self2)
  also have "\<dots> = bufs - 1" using assms by (intro mod_less) arith
  finally have e: "(bufs + 2 ^ 32 - 1) mod 2 ^ 32 = bufs - 1" .
  show "clockHand (BufMgr_new bufs d) = bufs - 1" using e by (simp add: BufMgr_new_def)
  have "Suc (bufs - 1) = bufs" using assms by simp
  then show "clockHand (advanceClock (BufMgr_new bufs d)) = 0"
    using e assms by (simp add: BufMgr_new_def advanceClock_def)
qed

text \<open>
  Claim C8. When all \<open>N\<close> frames are valid, unpinned and have \<open>refbit\<close> set, \<open>allocBuf\<close>
  advances the hand exactly \<open>N + 1\<close> times: the loop is left in the iteration with
  \<open>i = N\<close>, the hand is one past where it started, and that frame, the first one the
  hand visited, is the one selected (it is returned unless the write of a dirty victim
  throws). The constructor sets the hand to \<open>N - 1\<close>, and the first advance puts it on
  frame 0.
\<close>

theorem allocBuf_full_sweep:
  "(BufMgr_wf s \<and> BufMgr_inv s \<and>
    (\<forall>j < numBufs s. valid (bufDescTable s ! j) \<and> pinCnt (bufDescTable s ! j) = 0 \<and>
        refbit (bufDescTable s ! j)) \<longrightarrow>
      advances (snd (allocBuf ops s)) = advances s + (numBufs s + 1) \<and>
      fst (snd (allocBuf_loop ops 0 s)) = numBufs s \<and>
      clockHand (snd (allocBuf ops s)) = (clockHand s + 1) mod numBufs s \<and>
      (fst (allocBuf ops s) = Inr ((clockHand s + 1) mod numBufs s) \<or>
       (\<exists>c. fst (allocBuf ops s) = Inl (FileException c)))) \<and>
   (0 < bufs \<and> bufs < 2 ^ 32 \<longrightarrow>
      clockHand (BufMgr_new bufs d) = bufs - 1 \<and>
      clockHand (advanceClock (BufMgr_new bufs d)) = 0)"
proof (intro conjI impI)
  assume a: "BufMgr_wf s \<and> BufMgr_inv s \<and>
    (\<forall>j < numBufs s. valid (bufDescTable s ! j) \<and> pinCnt (bufDescTable s ! j) = 0 \<and>
        refbit (bufDescTable s ! j))"
  then have w: "BufMgr_wf s" and i: "BufMgr_inv s" by simp_all
  have h: "clockHand s < numBufs s" and pos: "0 < numBufs s" using w by (simp_all add: BufMgr_wf_def)
  have p: "\<forall>j < numBufs s. valid (bufDescTable s ! j) \<and> pinCnt (bufDescTable s ! j) = 0 \<and>
           (refbit (bufDescTable s ! j) \<longleftrightarrow>
              clock_dist (numBufs s) (clockHand s) j < numBufs s)"
    using a clock_dist_next(4) [OF h _ refl] by simp
  have "0 + numBufs s \<le> numBufs s" by simp
  from allocBuf_loop_sweep [OF w i p this, of ops] obtain r s' where
    l: "allocBuf_loop ops 0 s = (r, numBufs s, s')"
    and r: "r = Inr True \<or> (\<exists>c. r = Inl (FileException c))"
    and adv: "advances s' = advances s + numBufs s + 1"
    and hand: "clockHand s' = (clockHand s + numBufs s + 1) mod numBufs s" by auto
  have "clockHand s + numBufs s + 1 = (clockHand s + 1) + numBufs s" by simp
  then have "(clockHand s + numBufs s + 1) mod numBufs s = (clockHand s + 1) mod numBufs s"
    by (metis mod_add_self2)
  with hand have hand': "clockHand s' = (clockHand s + 1) mod numBufs s" by simp
  from l show "fst (snd (allocBuf_loop ops 0 s)) = numBufs s" by simp
  from r have e: "allocBuf ops s =
      (case r of Inl e \<Rightarrow> Inl e | Inr b \<Rightarrow> Inr (clockHand s'),
       case r of Inl e \<Rightarrow> s'
       | Inr b \<Rightarrow> s'\<lparr>bufDescTable := (bufDescTable s')[clockHand s' :=
                    BufDesc_Clear (bufDescTable s' ! clockHand s')]\<rparr>)"
    using l by (auto simp: allocBuf_def)
  from r adv show "advances (snd (allocBuf ops s)) = advances s + (numBufs s + 1)"
    unfolding e by auto
  from r hand' show "clockHand (snd (allocBuf ops s)) = (clockHand s + 1) mod numBufs s"
    unfolding e by auto
  from r hand' show "fst (allocBuf ops s) = Inr ((clockHand s + 1) mod numBufs s) \<or>
       (\<exists>c. fst (allocBuf ops s) = Inl (FileException c))"
    unfolding e by auto
next
  assume "0 < bufs \<and> bufs < 2 ^ 32"
  then show "clockHand (BufMgr_new bufs d) = bufs - 1"
    using BufMgr_new_hand(1) [of bufs d] by simp
next
  assume "0 < bufs \<and> bufs < 2 ^ 32"
  then show "clockHand (advanceClock (BufMgr_new bufs d)) = 0"
    using BufMgr_new_hand(2) [of bufs d] by simp
qed

theorem allocBuf_full_sweep_witness:
  "advances (snd (allocBuf mem_ops
      (ex_pool2 (ex_desc 7 1 0 0 False True) (ex_desc 7 2 1 0 False True)))) = 3 \<and>
   fst (allocBuf mem_ops
      (ex_pool2 (ex_desc 7 1 0 0 False True) (ex_desc 7 2 1 0 False True))) = Inr 0 \<and>
   clockHand (advanceClock (BufMgr_new 2 (0::nat))) = 0"
proof -
  let ?s = "ex_pool2 (ex_desc 7 1 0 0 False True) (ex_desc 7 2 1 0 False True)"
  have w: "BufMgr_wf ?s" by (simp add: eval_inv_defs ex_pool2_def ex_desc_def)
  have i: "BufMgr_inv ?s" by (simp add: eval_inv_defs ex_pool2_def ex_desc_def)
  have p: "\<forall>j < numBufs ?s. valid (bufDescTable ?s ! j) \<and> pinCnt (bufDescTable ?s ! j) = 0 \<and>
        refbit (bufDescTable ?s ! j)"
    by (simp add: ex_pool2_def ex_desc_def less_Suc_eq numeral_2_eq_2)
  have n: "numBufs ?s = 2" "advances ?s = 0" "clockHand ?s = 1" by (simp_all add: ex_pool2_def)
  have ok: "\<not> isl (fst (allocBuf mem_ops ?s))" by (simp add: eval_defs)
  have b: "0 < (2::nat) \<and> (2::nat) < 2 ^ 32" by simp
  from allocBuf_full_sweep [THEN conjunct1, THEN mp, OF conjI [OF w conjI [OF i p]], of mem_ops]
    allocBuf_full_sweep [THEN conjunct2, THEN mp, OF b, of "0::nat"] n ok
  show ?thesis by auto
qed

section \<open>Claim C5: readPage on a hit, and twice in a row\<close>

lemma allocBuf_evict_writes_ok:
  assumes w: "BufMgr_wf s" and i: "BufMgr_inv s" and v: "valid (bufDescTable s ! clockHand s)"
    and ok: "\<forall>g pg d. \<not> isl (fst (File_writePage ops g pg d))"
  shows "\<exists>s2. allocBuf_evict ops s = (Inr (), s2)"
proof -
  obtain r s2 where e: "allocBuf_evict ops s = (r, s2)" by fastforce
  have h: "clockHand s < numBufs s" using w by (simp add: BufMgr_wf_def)
  from inv_valid_lookup [OF i h v]
  have rm: "ht_remove (hashTable s) (desc_key (bufDescTable s ! clockHand s)) =
              Inr (filter (\<lambda>e. fst e \<noteq> desc_key (bufDescTable s ! clockHand s)) (hashTable s))"
    by (simp add: ht_remove_def)
  from e have "r = Inr ()"
  proof (cases rule: allocBuf_evict_cases)
    case (absent e)
    with rm show ?thesis by simp
  next
    case (clean ht')
    then show ?thesis by simp
  next
    case (dirty ht')
    from dirty(3) call_writePage_ok [OF ok [rule_format]] show ?thesis by simp
  qed
  with e show ?thesis by simp
qed









section \<open>Claim C3: flushFile and a pinned frame\<close>













section \<open>Claims C1 and C2: where allocBuf falls short\<close>

lemma allocBuf_evict_write_fails:
  assumes m: "map_of (hashTable s) (desc_key (bufDescTable s ! clockHand s)) = Some fr"
    and d: "dirty (bufDescTable s ! clockHand s)"
    and l: "clockHand s < length (bufDescTable s)"
    and wr: "File_writePage ops (file_p (bufDescTable s ! clockHand s))
               (bufPool s ! clockHand s) (disk s) = (Inl c, dk)"
  shows "allocBuf_evict ops s =
    (Inl (FileException c),
     s\<lparr>bufDescTable := (bufDescTable s)[clockHand s :=
          (bufDescTable s ! clockHand s)\<lparr>dirty := False\<rparr>],
       hashTable := filter (\<lambda>e. fst e \<noteq> desc_key (bufDescTable s ! clockHand s)) (hashTable s),
       disk := dk,
       calls := calls s @
         [WritePage (file_p (bufDescTable s ! clockHand s)) (bufPool s ! clockHand s)]\<rparr>)"
  using assms
  by (simp add: allocBuf_evict_def Let_def ht_remove_def desc_key_def call_writePage_def)

text \<open>
  Claim C1 does not hold for the source: the loop of \<open>allocBuf\<close> makes \<open>numBufs + 1\<close>
  advances and then gives up. In \<open>ex_reads\<close> frame 0 is pinned and frame 1 is not, both with
  \<open>refbit\<close> set, and the hand is on frame 1. The three advances clear the \<open>refbit\<close> of frame
  0 and of frame 1 and then skip the pinned frame 0; the loop ends and \<open>allocBuf\<close> throws
  \<open>BufferExceededException\<close>, though frame 1 is valid, unpinned and now has \<open>refbit\<close> clear.
\<close>

theorem allocBuf_gives_up_early:
  "pinCnt (bufDescTable ex_reads ! 0) = 1 \<and>
   valid (bufDescTable ex_reads ! 1) \<and>
   pinCnt (bufDescTable ex_reads ! 1) = 0 \<and>
   refbit (bufDescTable ex_reads ! 0) \<and> refbit (bufDescTable ex_reads ! 1) \<and>
   clockHand ex_reads = 1 \<and>
   fst (allocBuf mem_ops ex_reads) = Inl BufferExceededException \<and>
   advances (snd (allocBuf mem_ops ex_reads)) = advances ex_reads + 3 \<and>
   \<not> refbit (bufDescTable (snd (allocBuf mem_ops ex_reads)) ! 1) \<and>
   pinCnt (bufDescTable (snd (allocBuf mem_ops ex_reads)) ! 1) = 0 \<and>
   fst (readPage mem_ops 7 3 ex_reads) = Inl BufferExceededException"
  by (simp add: ex_reads_def eval_defs eval_new_defs)

text \<open>
  Claim C2 does not hold for the source: \<open>allocBuf\<close> removes the entry of the victim and
  clears its dirty bit before it calls \<open>writePage\<close>. In \<open>ex_dirty\<close> the only frame holds page
  1 of file 7, dirty and unpinned. When the write throws, \<open>allocBuf\<close> throws; the frame is
  still valid, but its dirty bit is clear and the page table has no entry for it. The next
  \<open>readPage\<close> that needs a frame, on a file that works, then throws
  \<open>HashNotFoundException\<close> out of \<open>allocBuf\<close>.
\<close>

theorem allocBuf_write_failure_not_atomic:
  "valid (bufDescTable ex_dirty ! 0) \<and> dirty (bufDescTable ex_dirty ! 0) \<and>
   pinCnt (bufDescTable ex_dirty ! 0) = 0 \<and>
   ht_lookup (hashTable ex_dirty) (7, 1) = Inr 0 \<and>
   fst (allocBuf wfail_ops ex_dirty) = Inl (FileException 2) \<and>
   valid (bufDescTable (snd (allocBuf wfail_ops ex_dirty)) ! 0) \<and>
   \<not> dirty (bufDescTable (snd (allocBuf wfail_ops ex_dirty)) ! 0) \<and>
   ht_lookup (hashTable (snd (allocBuf wfail_ops ex_dirty))) (7, 1) =
     Inl HashNotFoundException \<and>
   readPage wfail_ops 7 2 ex_dirty = allocBuf wfail_ops ex_dirty \<and>
   fst (readPage mem_ops 7 5 (snd (readPage wfail_ops 7 2 ex_dirty))) =
     Inl HashNotFoundException"
  by (simp add: ex_dirty_def wfail_ops_def eval_defs eval_new_defs)

section \<open>The invariant when an operation throws\<close>

lemma allocBuf_loop_writes_ok:
  "BufMgr_wf s \<Longrightarrow> BufMgr_inv s \<Longrightarrow>
   \<forall>g pg d. \<not> isl (fst (File_writePage ops g pg d)) \<Longrightarrow>
   allocBuf_loop ops i s = (r, i', s') \<Longrightarrow> \<exists>b. r = Inr b"
proof (induction i s rule: allocBuf_loop_cases_induct)
  case (exit i s)
  then show ?case by (auto simp: allocBuf_loop_exit)
next
  case (invalid i s)
  then show ?case by (auto simp: allocBuf_loop_invalid)
next
  case (refbit i s)
  from refbit.IH [OF wf_clear_refbit [OF refbit.prems(1)] inv_clear_refbit [OF refbit.prems(2)]
      refbit.prems(3)] refbit.hyps refbit.prems(4)
  show ?case by (simp add: allocBuf_loop_refbit)
next
  case (pinned i s)
  from pinned.IH [OF advanceClock_wf [OF pinned.prems(1)] _ pinned.prems(3)]
    pinned.hyps pinned.prems(2,4)
  show ?case by (simp add: allocBuf_loop_pinned)
next
  case (evict i s)
  have "\<exists>s2. allocBuf_evict ops (advanceClock s) = (Inr (), s2)"
    by (rule allocBuf_evict_writes_ok [OF advanceClock_wf [OF evict.prems(1)] _ _ evict.prems(3)])
       (use evict.prems(2) evict.hyps(2) in simp_all)
  then show ?case using evict.hyps evict.prems(4) by (auto simp: allocBuf_loop_evict)
qed

lemma allocBuf_any_outcome:
  assumes w: "BufMgr_wf s" and i: "BufMgr_inv s"
    and ok: "\<forall>g pg d. \<not> isl (fst (File_writePage ops g pg d))"
    and a: "allocBuf ops s = (r, s')"
  shows "BufMgr_inv s'"
  using a
proof (cases rule: allocBuf_cases)
  case (thrown e j)
  from allocBuf_loop_writes_ok [OF w i ok thrown(1)] show ?thesis by simp
next
  case (exceeded j)
  from allocBuf_loop_inv [OF w i exceeded(1)] show ?thesis by simp
next
  case (found j s1)
  from allocBuf_loop_inv [OF w i found(1)] found(3) show ?thesis by simp
qed

lemma readPage_wf:
  assumes w: "BufMgr_wf s" and r: "readPage ops f p s = (r, s')"
  shows "BufMgr_wf s'"
proof (cases "map_of (hashTable s) (f, p)")
  case (Some fr0)
  from r have s': "s' = s\<lparr>bufDescTable := (bufDescTable s)[fr0 := (bufDescTable s ! fr0)
            \<lparr>refbit := True, pinCnt := pinCnt (bufDescTable s ! fr0) + 1\<rparr>]\<rparr>"
    unfolding readPage_hit [OF Some] by auto
  show ?thesis unfolding s' using w by (rule wf_desc_update) simp
next
  case None
  obtain ra s1 where a: "allocBuf ops s = (ra, s1)" by fastforce
  from allocBuf_wf [OF w a] have w1: "BufMgr_wf s1" by simp
  show ?thesis
  proof (cases ra)
    case (Inl e)
    with r a w1 show ?thesis unfolding readPage_miss [OF None] by simp
  next
    case (Inr fr)
    obtain rc s2 where c: "call_readPage ops f p s1 = (rc, s2)" by fastforce
    from call_readPage_fields [OF c] obtain dk cl where s2: "s2 = s1\<lparr>disk := dk, calls := cl\<rparr>"
      by blast
    have w2: "BufMgr_wf s2" using w1 by (simp add: s2)
    show ?thesis
    proof (cases rc)
      case (Inl e)
      with r a Inr c w2 show ?thesis unfolding readPage_miss [OF None] by simp
    next
      case rcr: (Inr pg)
      from wf_admit [OF w2, where fr = fr and pg = pg and f = f and p = p] w2 r a Inr c rcr show ?thesis
        unfolding readPage_miss [OF None] by (auto split: sum.splits)
    qed
  qed
qed

lemma readPage_any_outcome:
  assumes w: "BufMgr_wf s" and i: "BufMgr_inv s"
    and ok: "\<forall>g pg d. \<not> isl (fst (File_writePage ops g pg d))"
    and r: "readPage ops f p s = (r, s')"
  shows "BufMgr_inv s'"
proof (cases r)
  case (Inr fr)
  from readPage_preserves [OF w i r [unfolded Inr]] show ?thesis by simp
next
  case (Inl e)
  have m: "map_of (hashTable s) (f, p) = None"
  proof (cases "map_of (hashTable s) (f, p)")
    case (Some fr0)
    from r Inl show ?thesis unfolding readPage_hit [OF Some] by simp
  qed simp
  obtain ra s1 where a: "allocBuf ops s = (ra, s1)" by fastforce
  from allocBuf_any_outcome [OF w i ok a] have i1: "BufMgr_inv s1" .
  show ?thesis
  proof (cases ra)
    case ral: (Inl e1)
    with r a i1 show ?thesis unfolding readPage_miss [OF m] by simp
  next
    case rar: (Inr fr)
    obtain rc s2 where c: "call_readPage ops f p s1 = (rc, s2)" by fastforce
    from call_readPage_fields [OF c] obtain dk cl where s2: "s2 = s1\<lparr>disk := dk, calls := cl\<rparr>"
      by blast
    have i2: "BufMgr_inv s2" using i1 by (simp add: s2)
    show ?thesis
    proof (cases rc)
      case rcl: (Inl e2)
      with r a rar c i2 show ?thesis unfolding readPage_miss [OF m] by simp
    next
      case rcr: (Inr pg)
      from r Inl a rar c rcr i2 show ?thesis
        unfolding readPage_miss [OF m] by (auto split: sum.splits)
    qed
  qed
qed


lemma allocPage_any_outcome:
  assumes w: "BufMgr_wf s" and i: "BufMgr_inv s"
    and ok: "\<forall>g pg d. \<not> isl (fst (File_writePage ops g pg d))"
    and r: "allocPage ops f s = (r, s')"
  shows "BufMgr_wf s' \<and> BufMgr_inv s'"
proof (cases r)
  case (Inr x)
  obtain q fr where "x = (q, fr)" by fastforce
  with allocPage_preserves [OF w i, of ops f q fr s'] r Inr show ?thesis by simp
next
  case (Inl e)
  obtain ra s1 where a: "allocBuf ops s = (ra, s1)" by fastforce
  from allocBuf_any_outcome [OF w i ok a] have i1: "BufMgr_inv s1" .
  from allocBuf_wf [OF w a] have w1: "BufMgr_wf s1" by simp
  show ?thesis
  proof (cases ra)
    case ral: (Inl e1)
    with r a i1 w1 show ?thesis unfolding allocPage_eq by simp
  next
    case rar: (Inr fr)
    obtain rc s2 where c: "call_allocatePage ops f s1 = (rc, s2)" by fastforce
    from call_allocatePage_fields [OF c] obtain dk cl where s2: "s2 = s1\<lparr>disk := dk, calls := cl\<rparr>"
      by blast
    have i2: "BufMgr_inv s2" and w2: "BufMgr_wf s2" using i1 w1 by (simp_all add: s2)
    show ?thesis
    proof (cases rc)
      case rcl: (Inl e2)
      with r a rar c i2 w2 show ?thesis unfolding allocPage_eq by simp
    next
      case rcr: (Inr pg)
      from r Inl a rar c rcr i2 w2 show ?thesis
        unfolding allocPage_eq by (auto split: sum.splits)
    qed
  qed
qed

lemma unPinPage_any_outcome:
  assumes w: "BufMgr_wf s" and i: "BufMgr_inv s" and r: "unPinPage f p dflag s = (r, s')"
  shows "BufMgr_wf s' \<and> BufMgr_inv s'"
proof (cases r)
  case (Inr u)
  from unPinPage_preserves [OF w i r [unfolded Inr]] show ?thesis .
next
  case (Inl e)
  have "s' = s"
  proof (cases "map_of (hashTable s) (f, p)")
    case None
    then have "ht_lookup (hashTable s) (f, p) = Inl HashNotFoundException"
      by (simp add: ht_lookup_def)
    from unPinPage_absent [OF this, of dflag] r show ?thesis by simp
  next
    case (Some fr)
    then have l: "ht_lookup (hashTable s) (f, p) = Inr fr" by (simp add: ht_lookup_def)
    from inv_lookup [OF i Some] w have fr: "fr < length (bufDescTable s)"
      by (simp add: BufMgr_wf_def)
    show ?thesis
    proof (cases "pinCnt (bufDescTable s ! fr) = 0")
      case True
      from unPinPage_not_pinned [OF l True, of dflag] r show ?thesis by simp
    next
      case False
      from unPinPage_pinned [OF l False fr, of dflag] r Inl show ?thesis by simp
    qed
  qed
  with w i show ?thesis by simp
qed

lemma disposePage_any_outcome:
  assumes w: "BufMgr_wf s" and i: "BufMgr_inv s" and r: "disposePage ops f p s = (r, s')"
  shows "BufMgr_wf s' \<and> BufMgr_inv s'"
proof (cases "map_of (hashTable s) (f, p)")
  case None
  from r have "call_deletePage ops f p s = (r, s')" unfolding disposePage_absent [OF None] .
  from call_deletePage_fields [OF this] obtain dk cl where "s' = s\<lparr>disk := dk, calls := cl\<rparr>"
    by blast
  with w i show ?thesis by simp
next
  case (Some fr)
  from inv_lookup [OF i Some] have fr: "fr < numBufs s" "valid (bufDescTable s ! fr)"
    "desc_key (bufDescTable s ! fr) = (f, p)" by simp_all
  have l: "fr < length (bufDescTable s)" using w fr(1) by (simp add: BufMgr_wf_def)
  let ?s0 = "s\<lparr>bufDescTable := (bufDescTable s)[fr := (bufDescTable s ! fr)\<lparr>dirty := False\<rparr>]\<rparr>"
  have w0: "BufMgr_wf ?s0" using w by (rule wf_desc_update) simp
  have i0: "BufMgr_inv ?s0" using i by (rule inv_pin_update) (simp_all add: desc_key_def)
  let ?c = "\<lambda>s1. s1\<lparr>bufDescTable := (bufDescTable s1)[fr := BufDesc_Clear (bufDescTable s1 ! fr)],
           hashTable := filter (\<lambda>e. fst e \<noteq> (f, p)) (hashTable s1)\<rparr>"
  have cl: "BufMgr_wf (?c s1) \<and> BufMgr_inv (?c s1)"
    if "BufMgr_wf s1" "BufMgr_inv s1" "fr < numBufs s1" "valid (bufDescTable s1 ! fr)"
      "desc_key (bufDescTable s1 ! fr) = (f, p)" for s1 :: "'a BufMgr"
  proof
    show "BufMgr_wf (?c s1)"
      using wf_desc_update [OF that(1), of "BufDesc_Clear (bufDescTable s1 ! fr)" fr] by simp
    show "BufMgr_inv (?c s1)"
      by (rule inv_evict_clear [OF that(1,2,3,4)]) (simp_all add: that(5))
  qed
  show ?thesis
  proof (cases "dirty (bufDescTable s ! fr)")
    case False
    from r have "call_deletePage ops f p (?c s) = (r, s')"
      unfolding disposePage_clean [OF Some False] .
    from call_deletePage_fields [OF this] obtain dk cl' where
      s': "s' = (?c s)\<lparr>disk := dk, calls := cl'\<rparr>" by blast
    from cl [OF w i fr] show ?thesis unfolding s' by simp
  next
    case True
    obtain rw s1 where c: "call_writePage ops f (bufPool s ! fr) ?s0 = (rw, s1)" by fastforce
    from call_writePage_fields [OF c] obtain dk cl0 where s1: "s1 = ?s0\<lparr>disk := dk, calls := cl0\<rparr>"
      by blast
    have w1: "BufMgr_wf s1" and i1: "BufMgr_inv s1" using w0 i0 by (simp_all add: s1)
    show ?thesis
    proof (cases rw)
      case (Inl e)
      from disposePage_dirty_fail [OF Some True c [unfolded Inl]] r w1 i1 show ?thesis by simp
    next
      case (Inr u1)
      have fr1: "fr < numBufs s1" "valid (bufDescTable s1 ! fr)"
        "desc_key (bufDescTable s1 ! fr) = (f, p)"
        using fr l by (simp_all add: s1 desc_key_def)
      from r have "call_deletePage ops f p (?c s1) = (r, s')"
        unfolding disposePage_dirty_ok [OF Some True c [unfolded Inr]] .
      from call_deletePage_fields [OF this] obtain dk' cl' where
        s': "s' = (?c s1)\<lparr>disk := dk', calls := cl'\<rparr>" by blast
      from cl [OF w1 i1 fr1] show ?thesis unfolding s' by simp
    qed
  qed
qed

text \<open>
  As long as \<open>writePage\<close> does not throw, the five operations keep the invariant also when
  they throw; \<open>unPinPage\<close>, \<open>flushFile\<close> and \<open>disposePage\<close> keep it in any case.
\<close>

lemma invariant_any_outcome:
  assumes w: "BufMgr_wf s" and i: "BufMgr_inv s"
  shows "(\<forall>g pg d. \<not> isl (fst (File_writePage ops g pg d))) \<Longrightarrow>
           BufMgr_wf (snd (readPage ops f p s)) \<and> BufMgr_inv (snd (readPage ops f p s))"
    and "(\<forall>g pg d. \<not> isl (fst (File_writePage ops g pg d))) \<Longrightarrow>
           BufMgr_wf (snd (allocPage ops f s)) \<and> BufMgr_inv (snd (allocPage ops f s))"
    and "BufMgr_wf (snd (unPinPage f p dflag s)) \<and> BufMgr_inv (snd (unPinPage f p dflag s))"
    and "BufMgr_wf (snd (flushFile ops f s)) \<and> BufMgr_inv (snd (flushFile ops f s))"
    and "BufMgr_wf (snd (disposePage ops f p s)) \<and> BufMgr_inv (snd (disposePage ops f p s))"
proof -
  assume ok: "\<forall>g pg d. \<not> isl (fst (File_writePage ops g pg d))"
  have e: "readPage ops f p s = (fst (readPage ops f p s), snd (readPage ops f p s))" by simp
  from readPage_wf [OF w e] readPage_any_outcome [OF w i ok e]
  show "BufMgr_wf (snd (readPage ops f p s)) \<and> BufMgr_inv (snd (readPage ops f p s))" by simp
next
  assume ok: "\<forall>g pg d. \<not> isl (fst (File_writePage ops g pg d))"
  have e: "allocPage ops f s = (fst (allocPage ops f s), snd (allocPage ops f s))" by simp
  from allocPage_any_outcome [OF w i ok e]
  show "BufMgr_wf (snd (allocPage ops f s)) \<and> BufMgr_inv (snd (allocPage ops f s))" .
next
  have e: "unPinPage f p dflag s = (fst (unPinPage f p dflag s), snd (unPinPage f p dflag s))"
    by simp
  from unPinPage_any_outcome [OF w i e]
  show "BufMgr_wf (snd (unPinPage f p dflag s)) \<and> BufMgr_inv (snd (unPinPage f p dflag s))" .
next
  have e: "flushFile ops f s = (fst (flushFile ops f s), snd (flushFile ops f s))" by simp
  from flushFile_preserves [OF w i e]
  show "BufMgr_wf (snd (flushFile ops f s)) \<and> BufMgr_inv (snd (flushFile ops f s))" .
next
  have e: "disposePage ops f p s = (fst (disposePage ops f p s), snd (disposePage ops f p s))"
    by simp
  from disposePage_any_outcome [OF w i e]
  show "BufMgr_wf (snd (disposePage ops f p s)) \<and> BufMgr_inv (snd (disposePage ops f p s))" .
qed

end
